theory Spec2Isabelle
  imports Main
begin

section \<open>The WebSocket manager of static/app.js\<close>

text \<open>
  The channel of the widget is the block of \<^verbatim>\<open>static/app.js\<close> headed
  \<^verbatim>\<open>// --- WebSocket manager ---\<close>: six module variables, \<^verbatim>\<open>_getInitialToken\<close>,
  \<^verbatim>\<open>wsConnect\<close> with its four socket listeners, and \<^verbatim>\<open>wsSend\<close>. The code is
  single threaded and event driven, so it is modelled as a state machine: a record holds the
  module variables together with the browser objects the code creates (sockets, promises,
  timers), every listener is a function on that record, and \<open>step\<close> dispatches one
  browser event to the listener the code registered for it.

  Exceptions are values. Two browser interfaces can throw on the inputs this code gives
  them: \<^verbatim>\<open>sessionStorage\<close>, every access to which throws a \<^verbatim>\<open>SecurityError\<close> on a
  page that is denied storage, and the \<^verbatim>\<open>WebSocket\<close> constructor, which throws a
  \<^verbatim>\<open>SyntaxError\<close> for a URL with a fragment, as the URL of \<^verbatim>\<open>wsConnect\<close> has when
  the token contains \<^verbatim>\<open>#\<close>. A throw inside the executor of \<^verbatim>\<open>wsConnect\<close> rejects the
  promise it returns, which the \<^verbatim>\<open>.catch(reject)\<close> of \<^verbatim>\<open>wsSend\<close> passes on to its
  caller; a throw inside a listener ends the listener where it stands. \<^verbatim>\<open>JSON.parse\<close>
  throwing is the frame \<open>None\<close> of the message listener.

  What is left out: \<^verbatim>\<open>JSON.stringify\<close> and \<^verbatim>\<open>send\<close> throwing (the callers pass plain
  data, and \<^verbatim>\<open>send\<close> is reached on an open socket only), a storage that is granted but
  full, and time itself: a timer that is set may come due at any later moment. The
  counter \<^verbatim>\<open>_wsReqId\<close> is a natural number; the JavaScript number it stands for counts
  exactly up to 2^53.
\<close>

subsection \<open>JavaScript values\<close>

text \<open>
  Values that come out of \<^verbatim>\<open>JSON.parse\<close>, and \<^verbatim>\<open>undefined\<close> for a property
  that is absent. Numbers are integers: the code only copies numbers or tests them for
  being zero. An object is the list of its members in the order of the text.
\<close>

datatype json =
    JUndefined
  | JNull
  | JBool bool
  | JNum int
  | JStr string
  | JArr "json list"
  | JObj "(string \<times> json) list"

text \<open>ToBoolean, as used by \<^verbatim>\<open>||\<close>, \<^verbatim>\<open>? :\<close> and \<^verbatim>\<open>if\<close>.\<close>

fun truthy :: "json \<Rightarrow> bool" where
  "truthy JUndefined = False"
| "truthy JNull = False"
| "truthy (JBool b) = b"
| "truthy (JNum n) = (n \<noteq> 0)"
| "truthy (JStr s) = (s \<noteq> [])"
| "truthy (JArr xs) = True"
| "truthy (JObj ms) = True"

text \<open>\<^verbatim>\<open>a || b\<close>\<close>

definition js_or :: "json \<Rightarrow> json \<Rightarrow> json" where
  "js_or a b = (if truthy a then a else b)"

text \<open>
  Property access \<^verbatim>\<open>msg.name\<close> on a parsed value other than \<^verbatim>\<open>null\<close>: the member
  of an object (the last one when the text repeats a name, as \<^verbatim>\<open>JSON.parse\<close> keeps it),
  and \<^verbatim>\<open>undefined\<close> for the names the handler reads on any other value.
\<close>

fun js_get :: "json \<Rightarrow> string \<Rightarrow> json" where
  "js_get (JObj ms) name = (case map_of (rev ms) name of Some v \<Rightarrow> v | None \<Rightarrow> JUndefined)"
| "js_get v name = JUndefined"

subsection \<open>Decimal numerals and string conversion\<close>

definition digit_char :: "nat \<Rightarrow> char" where
  "digit_char d = ''0123456789'' ! d"

fun show_nat :: "nat \<Rightarrow> string" where
  "show_nat n = (if n < 10 then [digit_char n] else show_nat (n div 10) @ [digit_char (n mod 10)])"

declare show_nat.simps [simp del]

definition show_int :: "int \<Rightarrow> string" where
  "show_int i = (if i < 0 then CHR ''-'' # show_nat (nat (- i)) else show_nat (nat i))"

fun join_comma :: "string list \<Rightarrow> string" where
  "join_comma [] = []"
| "join_comma [x] = x"
| "join_comma (x # y # ys) = x @ CHR '','' # join_comma (y # ys)"

text \<open>
  ToString, as applied by a template literal, by \<^verbatim>\<open>sessionStorage.setItem\<close> and by the
  \<^verbatim>\<open>Error\<close> constructor. An array joins its elements with commas, \<^verbatim>\<open>null\<close>
  elements printing as nothing; an object (taken to have no \<^verbatim>\<open>toString\<close> member of
  its own) prints as \<^verbatim>\<open>[object Object]\<close>.
\<close>

fun js_String :: "json \<Rightarrow> string" where
  "js_String JUndefined = ''undefined''"
| "js_String JNull = ''null''"
| "js_String (JBool b) = (if b then ''true'' else ''false'')"
| "js_String (JNum n) = show_int n"
| "js_String (JStr s) = s"
| "js_String (JArr xs) =
     join_comma (map (\<lambda>x. if x = JNull \<or> x = JUndefined then [] else js_String x) xs)"
| "js_String (JObj ms) = ''[object Object]''"

subsection \<open>Objects the code creates\<close>

text \<open>
  An \<^verbatim>\<open>Error\<close> as the handlers build it: the message, and the four properties the
  message handler may add. \<open>JUndefined\<close> stands for a property that reads as
  \<^verbatim>\<open>undefined\<close>.
\<close>

record js_error =
  err_message :: string
  err_code :: json
  err_limit :: json
  err_current :: json
  err_attempted :: json

text \<open>\<^verbatim>\<open>new Error(text)\<close>\<close>

definition new_Error :: "string \<Rightarrow> js_error" where
  "new_Error text = \<lparr> err_message = text, err_code = JUndefined, err_limit = JUndefined,
     err_current = JUndefined, err_attempted = JUndefined \<rparr>"

text \<open>The exceptions the browser interfaces throw, by the name of the \<^verbatim>\<open>DOMException\<close>.\<close>

datatype exception = SyntaxError | SecurityError

text \<open>
  The argument of one invocation of a promise's \<^verbatim>\<open>resolve\<close> or \<^verbatim>\<open>reject\<close>: a value,
  an \<^verbatim>\<open>Error\<close> the code built, or an exception it caught.
\<close>

datatype settlement = Resolved json | Rejected js_error | RejectedThrown exception

text \<open>The place in the source that made the invocation.\<close>

datatype via =
    ViaSuccess       \<comment> \<open>\<^verbatim>\<open>pending.resolve(msg.result)\<close> in the message listener\<close>
  | ViaFailure       \<comment> \<open>\<^verbatim>\<open>pending.reject(err)\<close> in the message listener\<close>
  | ViaTimeout       \<comment> \<open>the \<^verbatim>\<open>setTimeout\<close> callback of \<^verbatim>\<open>ready\<close>\<close>
  | ViaClose         \<comment> \<open>\<^verbatim>\<open>p.reject(...)\<close> in the close listener\<close>
  | ViaNotConnected  \<comment> \<open>the guard at the head of \<^verbatim>\<open>ready\<close>\<close>
  | ViaCatch         \<comment> \<open>\<^verbatim>\<open>.catch(reject)\<close> at the end of \<^verbatim>\<open>wsSend\<close>\<close>

text \<open>
  One invocation of \<^verbatim>\<open>wsSend\<close>: its arguments after defaulting, and every invocation
  of the \<^verbatim>\<open>resolve\<close> and \<^verbatim>\<open>reject\<close> of the promise it returned, in order. The
  promise takes the first; later ones would be ignored by the runtime.
\<close>

record call =
  c_action :: string
  c_payload :: json
  c_timeoutMs :: nat
  c_settles :: "(via \<times> settlement) list"

datatype readyState = CONNECTING | OPEN | CLOSING | CLOSED

text \<open>
  The promise of one \<^verbatim>\<open>wsConnect\<close> invocation: pending, resolved, or rejected with the
  exception its executor threw.
\<close>

datatype promise = PromisePending | PromiseFulfilled | PromiseRejected exception

text \<open>
  The \<^verbatim>\<open>sessionStorage\<close> of the page: denied, so that every access throws, or granted
  and holding the item \<^verbatim>\<open>bs-token\<close> or not.
\<close>

datatype storage = StorageDenied | StorageItem "string option"

text \<open>
  A \<^verbatim>\<open>WebSocket\<close>: the URL it was opened with, the state the browser reports, and the
  promise whose \<^verbatim>\<open>resolve\<close> its message listener closes over.
\<close>

record socket =
  sk_url :: string
  sk_readyState :: readyState
  sk_resolve :: nat

datatype timer_kind =
    Reconnect                            \<comment> \<open>\<^verbatim>\<open>() => { wsConnect(); }\<close>\<close>
  | RequestTimer string nat nat          \<comment> \<open>the callback of \<^verbatim>\<open>ready\<close>: id, call, timeoutMs\<close>

record timer =
  t_delay :: nat
  t_kind :: timer_kind
  t_active :: bool

text \<open>A value of \<^verbatim>\<open>_wsPending\<close>: the call its closures settle and the timer they clear.\<close>

record pending =
  p_call :: nat
  p_timer :: nat

text \<open>The object given to \<^verbatim>\<open>JSON.stringify\<close> and sent.\<close>

record frame =
  f_id :: string
  f_action :: string
  f_payload :: json

subsection \<open>State\<close>

record state =
  ws :: "nat option"                        \<comment> \<open>\<^verbatim>\<open>_ws\<close>: the socket held, or null\<close>
  wsToken :: json                           \<comment> \<open>\<^verbatim>\<open>_wsToken\<close>\<close>
  wsPending :: "(string \<times> pending) list"     \<comment> \<open>\<^verbatim>\<open>_wsPending\<close>, in insertion order\<close>
  wsReqId :: nat                            \<comment> \<open>\<^verbatim>\<open>_wsReqId\<close>\<close>
  wsReconnectDelay :: nat                   \<comment> \<open>\<^verbatim>\<open>_wsReconnectDelay\<close>\<close>
  locProtocol :: string                     \<comment> \<open>\<^verbatim>\<open>location.protocol\<close>\<close>
  locHost :: string                         \<comment> \<open>\<^verbatim>\<open>location.host\<close>\<close>
  metaContent :: "string option"            \<comment> \<open>content of the \<^verbatim>\<open>bs-token\<close> meta tag, if there is one\<close>
  sessionItem :: storage                    \<comment> \<open>\<^verbatim>\<open>sessionStorage\<close> and its item \<^verbatim>\<open>bs-token\<close>\<close>
  sockets :: "socket list"                  \<comment> \<open>every \<^verbatim>\<open>WebSocket\<close> constructed\<close>
  connects :: "promise list"                \<comment> \<open>every promise \<^verbatim>\<open>wsConnect\<close> returned\<close>
  thens :: "(nat \<times> nat) list"               \<comment> \<open>every \<^verbatim>\<open>.then(ready).catch(reject)\<close> not yet run: promise and call\<close>
  calls :: "call list"                      \<comment> \<open>every invocation of \<^verbatim>\<open>wsSend\<close>\<close>
  timers :: "timer list"                    \<comment> \<open>every \<^verbatim>\<open>setTimeout\<close>\<close>
  wire :: "(nat option \<times> frame) list"       \<comment> \<open>every \<^verbatim>\<open>_ws.send\<close>: the value of \<^verbatim>\<open>_ws\<close> and the frame\<close>

definition WS_MAX_RECONNECT_DELAY :: nat where
  "WS_MAX_RECONNECT_DELAY = 16000"

definition GENERATION_TIMEOUT_MS :: nat where
  "GENERATION_TIMEOUT_MS = 120000"

text \<open>The module as loaded on a page: the initial values of the six variables.\<close>

definition init_state :: "string \<Rightarrow> string \<Rightarrow> string option \<Rightarrow> storage \<Rightarrow> state" where
  "init_state protocol host meta item =
     \<lparr> ws = None, wsToken = JNull, wsPending = [], wsReqId = 0, wsReconnectDelay = 500,
       locProtocol = protocol, locHost = host, metaContent = meta, sessionItem = item,
       sockets = [], connects = [], thens = [], calls = [], timers = [], wire = [] \<rparr>"

subsection \<open>Browser primitives\<close>

text \<open>\<^verbatim>\<open>_ws && _ws.readyState === WebSocket.OPEN\<close>\<close>

definition ws_open :: "state \<Rightarrow> bool" where
  "ws_open s = (case ws s of None \<Rightarrow> False
     | Some i \<Rightarrow> i < length (sockets s) \<and> sk_readyState (sockets s ! i) = OPEN)"

text \<open>\<^verbatim>\<open>setTimeout(callback, delay)\<close>: the handle is the index of the new timer.\<close>

definition setTimeout :: "timer_kind \<Rightarrow> nat \<Rightarrow> state \<Rightarrow> state" where
  "setTimeout k d s = s\<lparr> timers := timers s @ [\<lparr> t_delay = d, t_kind = k, t_active = True \<rparr>] \<rparr>"

definition clearTimeout :: "nat \<Rightarrow> state \<Rightarrow> state" where
  "clearTimeout t s =
     (if t < length (timers s) then s\<lparr> timers := (timers s)[t := (timers s ! t)\<lparr> t_active := False \<rparr>] \<rparr>
      else s)"

text \<open>An invocation of the \<^verbatim>\<open>resolve\<close> or \<^verbatim>\<open>reject\<close> of the promise of call \<open>c\<close>.\<close>

definition settle :: "nat \<Rightarrow> via \<Rightarrow> settlement \<Rightarrow> state \<Rightarrow> state" where
  "settle c v x s =
     (if c < length (calls s)
      then s\<lparr> calls := (calls s)[c := (calls s ! c)\<lparr> c_settles := c_settles (calls s ! c) @ [(v, x)] \<rparr>] \<rparr>
      else s)"

text \<open>\<^verbatim>\<open>Map.prototype.get\<close>, \<^verbatim>\<open>set\<close> and \<^verbatim>\<open>delete\<close> on a map whose keys are strings.\<close>

definition pending_get :: "(string \<times> pending) list \<Rightarrow> json \<Rightarrow> pending option" where
  "pending_get m k = (case k of JStr key \<Rightarrow> map_of m key | _ \<Rightarrow> None)"

definition pending_set :: "string \<Rightarrow> pending \<Rightarrow> (string \<times> pending) list \<Rightarrow> (string \<times> pending) list" where
  "pending_set key p m =
     (if key \<in> fst ` set m then map (\<lambda>(k, q). if k = key then (k, p) else (k, q)) m
      else m @ [(key, p)])"

definition pending_delete :: "json \<Rightarrow> (string \<times> pending) list \<Rightarrow> (string \<times> pending) list" where
  "pending_delete k m = filter (\<lambda>(key, q). JStr key \<noteq> k) m"

subsection \<open>The code\<close>

text \<open>\<^verbatim>\<open>sessionStorage.getItem('bs-token')\<close>\<close>

definition getItem :: "state \<Rightarrow> exception + json" where
  "getItem s =
     (case sessionItem s of
        StorageDenied \<Rightarrow> Inl SecurityError
      | StorageItem None \<Rightarrow> Inr JNull
      | StorageItem (Some v) \<Rightarrow> Inr (JStr v))"

text \<open>
  \<^verbatim>\<open>_getInitialToken\<close>: the meta tag when it has content, else the stored item; the
  storage is not touched in the first case.
\<close>

definition getInitialToken :: "state \<Rightarrow> exception + json" where
  "getInitialToken s =
     (case metaContent s of
        Some c \<Rightarrow> if c \<noteq> [] then Inr (JStr c) else getItem s
      | None \<Rightarrow> getItem s)"

text \<open>
  The URL built by \<^verbatim>\<open>wsConnect\<close>, unless reading the token throws.
  \<^verbatim>\<open>_wsToken || _getInitialToken()\<close> calls the function only when \<^verbatim>\<open>_wsToken\<close> is
  falsy.
\<close>

definition ws_url :: "state \<Rightarrow> exception + string" where
  "ws_url s =
     (let proto = (if locProtocol s = ''https:'' then ''wss:'' else ''ws:'')
      in case (if truthy (wsToken s) then Inr (wsToken s) else getInitialToken s) of
           Inl x \<Rightarrow> Inl x
         | Inr token \<Rightarrow>
             Inr (proto @ ''//'' @ locHost s @ ''/ws'' @
                  (if truthy token then ''?token='' @ js_String token else [])))"

text \<open>
  \<^verbatim>\<open>new WebSocket(url)\<close> for the message listener that resolves promise \<open>p\<close>. The
  scheme is \<^verbatim>\<open>ws:\<close> or \<^verbatim>\<open>wss:\<close> and the host is the page's own, so the constructor
  refuses the URL exactly when it has a fragment.
\<close>

definition new_WebSocket :: "string \<Rightarrow> nat \<Rightarrow> exception + socket" where
  "new_WebSocket url p =
     (if CHR ''#'' \<in> set url then Inl SyntaxError
      else Inr \<lparr> sk_url = url, sk_readyState = CONNECTING, sk_resolve = p \<rparr>)"

text \<open>
  The executor of \<^verbatim>\<open>wsConnect\<close> past its guard, up to the constructor: the socket of a
  new promise, or the exception thrown on the way.
\<close>

definition open_socket :: "state \<Rightarrow> exception + socket" where
  "open_socket s =
     (case ws_url s of
        Inl x \<Rightarrow> Inl x
      | Inr url \<Rightarrow> new_WebSocket url (length (connects s)))"

text \<open>
  \<^verbatim>\<open>ready\<close>, the closure of one \<^verbatim>\<open>wsSend\<close> invocation \<open>c\<close>: the guard, then the id,
  the timer, the table entry and the frame.
\<close>

definition req_id :: "nat \<Rightarrow> string" where
  "req_id n = CHR ''r'' # show_nat n"

definition ready :: "nat \<Rightarrow> state \<Rightarrow> state" where
  "ready c s =
     (if \<not> ws_open s
      then settle c ViaNotConnected (Rejected (new_Error ''WebSocket not connected'')) s
      else
        let s1 = s\<lparr> wsReqId := wsReqId s + 1 \<rparr>;
            ident = req_id (wsReqId s1);
            timeoutMs = c_timeoutMs (calls s1 ! c);
            t = length (timers s1);
            s2 = setTimeout (RequestTimer ident c timeoutMs) timeoutMs s1;
            s3 = s2\<lparr> wsPending := pending_set ident \<lparr> p_call = c, p_timer = t \<rparr> (wsPending s2) \<rparr>
        in s3\<lparr> wire := wire s3 @
             [(ws s3, \<lparr> f_id = ident, f_action = c_action (calls s3 ! c),
                        f_payload = c_payload (calls s3 ! c) \<rparr>)] \<rparr>)"

text \<open>
  \<^verbatim>\<open>resolve()\<close> of the promise \<open>p\<close> of a \<^verbatim>\<open>wsConnect\<close> invocation. The first
  invocation resolves a pending promise, and the \<^verbatim>\<open>ready\<close> closures chained to it run
  in the order they were chained, before any other event; on a promise that is settled it
  does nothing.
\<close>

definition resolve_connect :: "nat \<Rightarrow> state \<Rightarrow> state" where
  "resolve_connect p s =
     (if p < length (connects s) \<and> connects s ! p = PromisePending
      then fold ready (map snd (filter (\<lambda>(q, c). q = p) (thens s)))
             (s\<lparr> connects := (connects s)[p := PromiseFulfilled],
                 thens := filter (\<lambda>(q, c). q \<noteq> p) (thens s) \<rparr>)
      else s)"

text \<open>
  \<^verbatim>\<open>promise.then(ready).catch(reject)\<close> for call \<open>c\<close>: on a resolved promise
  \<^verbatim>\<open>ready\<close> runs, on a rejected one \<^verbatim>\<open>reject\<close> is invoked with the exception, and on
  a pending one the pair waits.
\<close>

definition then_ready_catch :: "nat \<Rightarrow> nat \<Rightarrow> state \<Rightarrow> state" where
  "then_ready_catch p c s =
     (case connects s ! p of
        PromiseFulfilled \<Rightarrow> ready c s
      | PromiseRejected x \<Rightarrow> settle c ViaCatch (RejectedThrown x) s
      | PromisePending \<Rightarrow> s\<lparr> thens := thens s @ [(p, c)] \<rparr>)"

text \<open>
  \<^verbatim>\<open>wsConnect\<close>: the promise it returns and the new state. With \<^verbatim>\<open>_ws\<close> open the
  promise is resolved at once. Otherwise, when the executor throws, the promise is
  rejected, no socket exists and \<^verbatim>\<open>_ws\<close> is as it was; else the socket is made
  \<^verbatim>\<open>_ws\<close> and the promise is pending. The listeners registered on the socket are
  \<open>on_open\<close>, \<open>on_message\<close> and \<open>on_close\<close> below; its error listener is empty.
\<close>

definition wsConnect :: "state \<Rightarrow> nat \<times> state" where
  "wsConnect s =
     (let p = length (connects s) in
      if ws_open s
      then (p, s\<lparr> connects := connects s @ [PromiseFulfilled] \<rparr>)
      else
        (case open_socket s of
           Inl x \<Rightarrow> (p, s\<lparr> connects := connects s @ [PromiseRejected x] \<rparr>)
         | Inr socket \<Rightarrow>
             (p, s\<lparr> connects := connects s @ [PromisePending],
                    sockets := sockets s @ [socket],
                    ws := Some (length (sockets s)) \<rparr>)))"

definition on_open :: "state \<Rightarrow> state" where
  "on_open s = s\<lparr> wsReconnectDelay := 500 \<rparr>"

text \<open>The error built from a frame whose \<^verbatim>\<open>ok\<close> is falsy.\<close>

definition failure_error :: "json \<Rightarrow> js_error" where
  "failure_error msg =
     (let err = new_Error (js_String (js_or (js_get msg ''error'') (JStr ''Request failed'')));
          err = err\<lparr> err_code := js_or (js_get msg ''code'') (JNum 500) \<rparr>
      in if js_get msg ''limit'' \<noteq> JUndefined
         then err\<lparr> err_limit := js_get msg ''limit'', err_current := js_get msg ''current'',
                   err_attempted := js_get msg ''attempted'' \<rparr>
         else err)"

text \<open>The two closures stored in a table entry.\<close>

definition pending_resolve :: "pending \<Rightarrow> via \<Rightarrow> json \<Rightarrow> state \<Rightarrow> state" where
  "pending_resolve p v x s = settle (p_call p) v (Resolved x) (clearTimeout (p_timer p) s)"

definition pending_reject :: "pending \<Rightarrow> via \<Rightarrow> js_error \<Rightarrow> state \<Rightarrow> state" where
  "pending_reject p v e s = settle (p_call p) v (Rejected e) (clearTimeout (p_timer p) s)"

text \<open>
  \<^verbatim>\<open>sessionStorage.setItem('bs-token', v)\<close>: the new state, or the exception.
\<close>

definition setItem :: "json \<Rightarrow> state \<Rightarrow> exception + state" where
  "setItem v s =
     (case sessionItem s of
        StorageDenied \<Rightarrow> Inl SecurityError
      | StorageItem old \<Rightarrow> Inr (s\<lparr> sessionItem := StorageItem (Some (js_String v)) \<rparr>))"

text \<open>
  The message listener of the socket whose promise is \<open>p\<close>. The data is \<open>None\<close> when
  \<^verbatim>\<open>JSON.parse\<close> throws; reading \<^verbatim>\<open>msg.type\<close> of \<^verbatim>\<open>null\<close> throws as well. Either
  way the listener ends there. On a push it ends after the assignment to \<^verbatim>\<open>_wsToken\<close>,
  before \<^verbatim>\<open>resolve()\<close>, when the storage throws.
\<close>

definition on_message :: "nat \<Rightarrow> json option \<Rightarrow> state \<Rightarrow> state" where
  "on_message p data s =
     (case data of
        None \<Rightarrow> s
      | Some msg \<Rightarrow>
          if msg = JNull \<or> msg = JUndefined then s
          else if js_get msg ''type'' = JStr ''auth''
          then
            (case setItem (js_get msg ''token'') (s\<lparr> wsToken := js_get msg ''token'' \<rparr>) of
               Inl x \<Rightarrow> s\<lparr> wsToken := js_get msg ''token'' \<rparr>
             | Inr s1 \<Rightarrow> resolve_connect p s1)
          else
            (case pending_get (wsPending s) (js_get msg ''id'') of
               None \<Rightarrow> s
             | Some pending \<Rightarrow>
                 let s1 = s\<lparr> wsPending := pending_delete (js_get msg ''id'') (wsPending s) \<rparr>
                 in if truthy (js_get msg ''ok'')
                    then pending_resolve pending ViaSuccess (js_get msg ''result'') s1
                    else pending_reject pending ViaFailure (failure_error msg) s1))"

definition on_close :: "state \<Rightarrow> state" where
  "on_close s =
     (let s1 = s\<lparr> ws := None \<rparr>;
          s2 = fold (\<lambda>(k, p). pending_reject p ViaClose (new_Error ''WebSocket closed'')) (wsPending s1) s1;
          s3 = s2\<lparr> wsPending := [] \<rparr>;
          s4 = setTimeout Reconnect (wsReconnectDelay s3) s3
      in s4\<lparr> wsReconnectDelay := min (wsReconnectDelay s4 * 2) WS_MAX_RECONNECT_DELAY \<rparr>)"

text \<open>
  \<^verbatim>\<open>Math.round(timeoutMs / 1000)\<close> for a whole number of milliseconds: halves round up.
\<close>

definition round_seconds :: "nat \<Rightarrow> nat" where
  "round_seconds ms = (ms + 500) div 1000"

definition timeout_error :: "nat \<Rightarrow> js_error" where
  "timeout_error ms = new_Error (''Request timed out after '' @ show_nat (round_seconds ms) @ ''s'')"

text \<open>The callback of a timer.\<close>

fun on_timer :: "timer_kind \<Rightarrow> state \<Rightarrow> state" where
  "on_timer Reconnect s = snd (wsConnect s)"
| "on_timer (RequestTimer ident c timeoutMs) s =
     settle c ViaTimeout (Rejected (timeout_error timeoutMs))
       (s\<lparr> wsPending := pending_delete (JStr ident) (wsPending s) \<rparr>)"

text \<open>
  \<^verbatim>\<open>wsSend(action, payload, timeoutMs)\<close>: \<open>JUndefined\<close> and \<open>None\<close> are arguments left
  out, which take the defaults \<^verbatim>\<open>{}\<close> and 30000. The result is the index of the call,
  which stands for the promise returned. The reactions to a promise of \<^verbatim>\<open>wsConnect\<close>
  that is settled already run before any other event.
\<close>

definition wsSend :: "string \<Rightarrow> json \<Rightarrow> nat option \<Rightarrow> state \<Rightarrow> nat \<times> state" where
  "wsSend action payload timeoutMs s =
     (let c = length (calls s);
          s1 = s\<lparr> calls := calls s @
                 [\<lparr> c_action = action,
                    c_payload = (if payload = JUndefined then JObj [] else payload),
                    c_timeoutMs = (case timeoutMs of None \<Rightarrow> 30000 | Some ms \<Rightarrow> ms),
                    c_settles = [] \<rparr>] \<rparr>
      in if ws_open s1 then (c, ready c s1)
         else (case wsConnect s1 of (p, s2) \<Rightarrow> (c, then_ready_catch p c s2)))"

text \<open>The call \<^verbatim>\<open>generateImage\<close> makes, with the payload it has assembled.\<close>

definition generateImage_send :: "json \<Rightarrow> state \<Rightarrow> nat \<times> state" where
  "generateImage_send payload s = wsSend ''generate'' payload (Some GENERATION_TIMEOUT_MS) s"

subsection \<open>Events\<close>

text \<open>
  What can happen next: the application calls \<^verbatim>\<open>wsConnect\<close> (as \<^verbatim>\<open>start\<close> does,
  which catches a rejection and leaves the manager as it is) or
  \<^verbatim>\<open>wsSend\<close>, the browser reports an event of a socket, or a timer comes due. The browser
  opens a socket that is connecting, delivers messages on a socket that is open, may move
  an open socket to closing, closes a socket once, and runs the callback of a timer
  that is set and was not cleared, once. An event the browser cannot deliver leaves the
  state as it is.
\<close>

datatype event =
    CallConnect
  | CallSend string json "nat option"
  | SockOpen nat
  | SockMessage nat "json option"
  | SockClosing nat
  | SockError nat
  | SockClose nat
  | TimerFire nat

definition sock_state :: "state \<Rightarrow> nat \<Rightarrow> readyState option" where
  "sock_state s i = (if i < length (sockets s) then Some (sk_readyState (sockets s ! i)) else None)"

definition set_readyState :: "nat \<Rightarrow> readyState \<Rightarrow> state \<Rightarrow> state" where
  "set_readyState i r s = s\<lparr> sockets := (sockets s)[i := (sockets s ! i)\<lparr> sk_readyState := r \<rparr>] \<rparr>"

fun step :: "state \<Rightarrow> event \<Rightarrow> state" where
  "step s CallConnect = snd (wsConnect s)"
| "step s (CallSend action payload timeoutMs) = snd (wsSend action payload timeoutMs s)"
| "step s (SockOpen i) =
     (if sock_state s i = Some CONNECTING then on_open (set_readyState i OPEN s) else s)"
| "step s (SockMessage i data) =
     (if sock_state s i = Some OPEN then on_message (sk_resolve (sockets s ! i)) data s else s)"
| "step s (SockClosing i) =
     (if sock_state s i = Some OPEN then set_readyState i CLOSING s else s)"
| "step s (SockError i) = s"
| "step s (SockClose i) =
     (if sock_state s i = None \<or> sock_state s i = Some CLOSED then s
      else on_close (set_readyState i CLOSED s))"
| "step s (TimerFire t) =
     (if t < length (timers s) \<and> t_active (timers s ! t)
      then on_timer (t_kind (timers s ! t)) (clearTimeout t s)
      else s)"

definition run :: "state \<Rightarrow> event list \<Rightarrow> state" where
  "run s es = foldl step s es"

section \<open>Notions for stating the properties\<close>

subsection \<open>Reading a decimal numeral back\<close>

definition digit_val :: "char \<Rightarrow> nat" where
  "digit_val ch = (if ch = CHR ''0'' then 0 else if ch = CHR ''1'' then 1 else if ch = CHR ''2'' then 2
     else if ch = CHR ''3'' then 3 else if ch = CHR ''4'' then 4 else if ch = CHR ''5'' then 5
     else if ch = CHR ''6'' then 6 else if ch = CHR ''7'' then 7 else if ch = CHR ''8'' then 8 else 9)"

definition read_nat :: "string \<Rightarrow> nat" where
  "read_nat cs = foldl (\<lambda>a ch. 10 * a + digit_val ch) 0 cs"

subsection \<open>Reconnect delays along a run\<close>

text \<open>
  The timers are never removed from the list, so the timers an event sets are those past
  the old length. \<open>reconnect_delays\<close> lists the delays of the reconnect timers set
  during a run, in order; \<open>closes\<close> counts the close events the browser delivers in it,
  and \<open>no_open\<close> says it delivers no open event.
\<close>

definition new_reconnects :: "state \<Rightarrow> state \<Rightarrow> nat list" where
  "new_reconnects s s' =
     map t_delay (filter (\<lambda>t. t_kind t = Reconnect) (drop (length (timers s)) (timers s')))"

fun reconnect_delays :: "state \<Rightarrow> event list \<Rightarrow> nat list" where
  "reconnect_delays s [] = []"
| "reconnect_delays s (e # es) = new_reconnects s (step s e) @ reconnect_delays (step s e) es"

fun delivers_open :: "state \<Rightarrow> event \<Rightarrow> bool" where
  "delivers_open s (SockOpen i) = (sock_state s i = Some CONNECTING)"
| "delivers_open s e = False"

fun delivers_close :: "state \<Rightarrow> event \<Rightarrow> bool" where
  "delivers_close s (SockClose i) = (sock_state s i \<noteq> None \<and> sock_state s i \<noteq> Some CLOSED)"
| "delivers_close s e = False"

fun closes :: "state \<Rightarrow> event list \<Rightarrow> nat" where
  "closes s [] = 0"
| "closes s (e # es) = (if delivers_close s e then 1 else 0) + closes (step s e) es"

fun no_open :: "state \<Rightarrow> event list \<Rightarrow> bool" where
  "no_open s [] = True"
| "no_open s (e # es) = (\<not> delivers_open s e \<and> no_open (step s e) es)"

text \<open>
  A step that keeps the kind of every timer and adds no reconnect timer.
\<close>

definition keeps_timers :: "state \<Rightarrow> state \<Rightarrow> bool" where
  "keeps_timers s s' \<longleftrightarrow>
     length (timers s) \<le> length (timers s') \<and>
     (\<forall>i < length (timers s). t_kind (timers s' ! i) = t_kind (timers s ! i)) \<and>
     (\<forall>i. length (timers s) \<le> i \<and> i < length (timers s') \<longrightarrow> t_kind (timers s' ! i) \<noteq> Reconnect)"

text \<open>The close listener's loop over the table.\<close>

abbreviation reject_all :: "via \<Rightarrow> js_error \<Rightarrow> (string \<times> pending) list \<Rightarrow> state \<Rightarrow> state" where
  "reject_all v e ps s \<equiv> fold (\<lambda>(k, p). pending_reject p v e) ps s"

subsection \<open>The invariant of the table, the timers and the promises\<close>

text \<open>
  A call is unsettled when nothing has invoked the \<^verbatim>\<open>resolve\<close> or \<^verbatim>\<open>reject\<close> of its
  promise. \<open>pending_calls\<close> are the calls with a table entry, \<open>waiting_calls\<close> those
  whose \<^verbatim>\<open>ready\<close> waits for a \<^verbatim>\<open>wsConnect\<close> promise.

  In every reachable state (\<open>inv_reachable\<close> below): the keys of the table are distinct
  ids already issued; a call is in at most one of the two lists, once, and is unsettled;
  the timer of a table entry is set, and is the request timer of that id and call; a set
  request timer belongs to a table entry; no promise of \<^verbatim>\<open>wsSend\<close> had its
  \<^verbatim>\<open>resolve\<close> or \<^verbatim>\<open>reject\<close> invoked twice; the ids sent are r1, r2, ... up to the
  counter; and a \<^verbatim>\<open>ready\<close> waits only for a promise that is pending.
\<close>

definition unsettled :: "state \<Rightarrow> nat \<Rightarrow> bool" where
  "unsettled s c \<longleftrightarrow> c < length (calls s) \<and> c_settles (calls s ! c) = []"

definition pending_calls :: "state \<Rightarrow> nat list" where
  "pending_calls s = map (\<lambda>kp. p_call (snd kp)) (wsPending s)"

definition waiting_calls :: "state \<Rightarrow> nat list" where
  "waiting_calls s = map snd (thens s)"

definition entry_ok :: "state \<Rightarrow> string \<times> pending \<Rightarrow> bool" where
  "entry_ok s kp \<longleftrightarrow>
     p_timer (snd kp) < length (timers s) \<and> p_call (snd kp) < length (calls s) \<and>
     timers s ! p_timer (snd kp) =
       \<lparr> t_delay = c_timeoutMs (calls s ! p_call (snd kp)),
         t_kind = RequestTimer (fst kp) (p_call (snd kp)) (c_timeoutMs (calls s ! p_call (snd kp))),
         t_active = True \<rparr> \<and>
     fst kp \<in> req_id ` {1..wsReqId s}"

definition timer_ok :: "state \<Rightarrow> nat \<Rightarrow> bool" where
  "timer_ok s t \<longleftrightarrow>
     (\<forall>k c ms. t_kind (timers s ! t) = RequestTimer k c ms \<and> t_active (timers s ! t) \<longrightarrow>
        map_of (wsPending s) k = Some \<lparr> p_call = c, p_timer = t \<rparr>)"

definition inv_core :: "state \<Rightarrow> bool" where
  "inv_core s \<longleftrightarrow>
     distinct (map fst (wsPending s)) \<and>
     distinct (pending_calls s @ waiting_calls s) \<and>
     (\<forall>c \<in> set (pending_calls s @ waiting_calls s). unsettled s c) \<and>
     (\<forall>kp \<in> set (wsPending s). entry_ok s kp) \<and>
     (\<forall>t < length (timers s). timer_ok s t) \<and>
     (\<forall>c < length (calls s). length (c_settles (calls s ! c)) \<le> 1) \<and>
     map (\<lambda>w. f_id (snd w)) (wire s) = map req_id [1..<Suc (wsReqId s)]"

definition inv_conn :: "state \<Rightarrow> bool" where
  "inv_conn s \<longleftrightarrow>
     (\<forall>pc \<in> set (thens s). fst pc < length (connects s) \<and> connects s ! fst pc = PromisePending) \<and>
     (\<forall>p \<in> set (map sk_resolve (sockets s)). p < length (connects s))"

definition inv :: "state \<Rightarrow> bool" where
  "inv s \<longleftrightarrow> inv_core s \<and> inv_conn s"

text \<open>
  Every call that is unsettled has a table entry or waits for a promise of
  \<^verbatim>\<open>wsConnect\<close>.
\<close>

definition inv_live :: "state \<Rightarrow> bool" where
  "inv_live s \<longleftrightarrow>
     (\<forall>c < length (calls s). c_settles (calls s ! c) = [] \<longrightarrow>
        c \<in> set (pending_calls s) \<or> c \<in> set (waiting_calls s))"

subsection \<open>Response frames\<close>

text \<open>A frame that the message listener takes to the table: parsed, not null, not an auth push.\<close>

definition response_frame :: "json \<Rightarrow> bool" where
  "response_frame msg \<longleftrightarrow> msg \<noteq> JNull \<and> msg \<noteq> JUndefined \<and> js_get msg ''type'' \<noteq> JStr ''auth''"

text \<open>
  The reference error of C10, in its words: the message is the frame's error field if
  non-empty and otherwise \<^verbatim>\<open>Request failed\<close>; the code is the frame's code field if
  truthy and otherwise 500; limit, current and attempted are copied exactly when the
  frame's limit field is not undefined. The error field of the protocol is a string; a
  value of another type counts as non-empty when it is truthy.
\<close>

fun non_empty :: "json \<Rightarrow> bool" where
  "non_empty (JStr text) = (text \<noteq> [])"
| "non_empty JUndefined = False"
| "non_empty JNull = False"
| "non_empty v = truthy v"

definition reference_error :: "json \<Rightarrow> js_error" where
  "reference_error msg =
     \<lparr> err_message = (if non_empty (js_get msg ''error'') then js_String (js_get msg ''error'')
                        else ''Request failed''),
       err_code = (if truthy (js_get msg ''code'') then js_get msg ''code'' else JNum 500),
       err_limit = (if js_get msg ''limit'' \<noteq> JUndefined then js_get msg ''limit'' else JUndefined),
       err_current = (if js_get msg ''limit'' \<noteq> JUndefined then js_get msg ''current'' else JUndefined),
       err_attempted = (if js_get msg ''limit'' \<noteq> JUndefined then js_get msg ''attempted'' else JUndefined) \<rparr>"

subsection \<open>Authentication pushes along a run\<close>

text \<open>
  \<open>auth_push\<close> is the token an event delivers when it is a message that the listener
  takes as an authentication push; \<open>pushes\<close> lists the tokens pushed during a run, in
  order. \<open>ws_base\<close> is the URL of \<^verbatim>\<open>wsConnect\<close> without the query.
\<close>

fun auth_push :: "state \<Rightarrow> event \<Rightarrow> json option" where
  "auth_push s (SockMessage i (Some msg)) =
     (if sock_state s i = Some OPEN \<and> msg \<noteq> JNull \<and> msg \<noteq> JUndefined \<and>
         js_get msg ''type'' = JStr ''auth''
      then Some (js_get msg ''token'') else None)"
| "auth_push s e = None"

fun pushes :: "state \<Rightarrow> event list \<Rightarrow> json list" where
  "pushes s [] = []"
| "pushes s (e # es) =
     (case auth_push s e of Some tok \<Rightarrow> [tok] | None \<Rightarrow> []) @ pushes (step s e) es"

definition ws_base :: "string \<Rightarrow> string \<Rightarrow> string" where
  "ws_base protocol host = (if protocol = ''https:'' then ''wss:'' else ''ws:'') @ ''//'' @ host @ ''/ws''"

subsection \<open>Promises of wsConnect\<close>

text \<open>
  \<open>resolves s e p\<close>: the event is an authentication push delivered on the socket whose
  listener holds the \<^verbatim>\<open>resolve\<close> of promise \<open>p\<close>, on a page whose storage is granted,
  so that the listener gets as far as \<^verbatim>\<open>resolve()\<close>.
\<close>

fun resolves :: "state \<Rightarrow> event \<Rightarrow> nat \<Rightarrow> bool" where
  "resolves s (SockMessage i (Some msg)) p \<longleftrightarrow>
     sock_state s i = Some OPEN \<and> msg \<noteq> JNull \<and> msg \<noteq> JUndefined \<and>
     js_get msg ''type'' = JStr ''auth'' \<and> sessionItem s \<noteq> StorageDenied \<and>
     sk_resolve (sockets s ! i) = p"
| "resolves s e p \<longleftrightarrow> False"

text \<open>With the invariant, no two sockets share a promise.\<close>

definition socks_ok :: "state \<Rightarrow> bool" where
  "socks_ok s \<longleftrightarrow> inv s \<and> distinct (map sk_resolve (sockets s))"

text \<open>The socket \<open>i\<close> is closed and the promise \<open>p\<close> of its listener is pending.\<close>

definition dead :: "state \<Rightarrow> nat \<Rightarrow> nat \<Rightarrow> bool" where
  "dead s i p \<longleftrightarrow> i < length (sockets s) \<and> sk_readyState (sockets s ! i) = CLOSED \<and>
     sk_resolve (sockets s ! i) = p \<and> p < length (connects s) \<and> connects s ! p = PromisePending"

subsection \<open>What settles a call\<close>


subsection \<open>Example runs\<close>

text \<open>Seven failed connection attempts in a row: every socket closes before it opens.\<close>

definition backoff_trace :: "event list" where
  "backoff_trace = [CallConnect, SockClose 0, TimerFire 0, SockClose 1, TimerFire 1, SockClose 2,
     TimerFire 2, SockClose 3, TimerFire 3, SockClose 4, TimerFire 4, SockClose 5, TimerFire 5,
     SockClose 6, TimerFire 6]"

text \<open>
  A page served over https whose meta tag carries a fresh token while the session storage
  still holds one of an earlier session.
\<close>

definition page :: state where
  "page = init_state ''https:'' ''example.org'' (Some ''fresh'') (StorageItem (Some ''cached''))"

text \<open>
  A page whose meta tag carries a token with a number sign in it, and a page without a
  meta tag that is denied storage.
\<close>

definition fragment_page :: state where
  "fragment_page = init_state ''https:'' ''example.org'' (Some ''a#b'') (StorageItem None)"

definition denied_page :: state where
  "denied_page = init_state ''https:'' ''example.org'' None StorageDenied"

text \<open>The authentication push.\<close>

definition auth_frame :: "string \<Rightarrow> json" where
  "auth_frame tok = JObj [(''type'', JStr ''auth''), (''token'', JStr tok)]"

text \<open>
  Two calls outstanding on an open, authenticated connection: the first was made while
  disconnected and went out when the push arrived, the second went out at once.
\<close>

definition two_pending_trace :: "event list" where
  "two_pending_trace =
     [CallSend ''providers'' JUndefined None, SockOpen 0, SockMessage 0 (Some (auth_frame ''abc'')),
      CallSend ''tts'' (JObj [(''text'', JStr ''hi'')]) None]"

text \<open>The failure frame of the specification's scenario, addressed to the first call.\<close>

definition rate_limit_frame :: json where
  "rate_limit_frame = JObj [(''id'', JStr ''r1''), (''ok'', JBool False),
     (''error'', JStr ''Rate limit exceeded''), (''code'', JNum 429), (''limit'', JNum 10),
     (''current'', JNum 10), (''attempted'', JNum 1)]"

text \<open>
  A failure frame with an empty message, code 0 and rate-limit usage but no limit.
\<close>

definition bare_failure_frame :: json where
  "bare_failure_frame = JObj [(''id'', JStr ''r1''), (''ok'', JBool False), (''error'', JStr []),
     (''code'', JNum 0), (''current'', JNum 10), (''attempted'', JNum 1)]"



definition closed_before_auth_trace :: "event list" where
  "closed_before_auth_trace = [CallSend ''providers'' JUndefined None, SockClose 0]"

definition reconnected_trace :: "event list" where
  "reconnected_trace = [TimerFire 0, SockOpen 1, SockMessage 1 (Some (auth_frame ''abc''))]"


text \<open>A connection that authenticates and then drops.\<close>

definition reconnect_after_push_trace :: "event list" where
  "reconnect_after_push_trace =
     [CallConnect, SockOpen 0, SockMessage 0 (Some (auth_frame ''abc'')), SockClose 0]"

text \<open>
  A connection that authenticates, is pushed a second token that is the empty string, and
  then drops.
\<close>

definition empty_push_trace :: "event list" where
  "empty_push_trace =
     [CallConnect, SockOpen 0, SockMessage 0 (Some (auth_frame ''abc'')),
      SockMessage 0 (Some (auth_frame [])), SockClose 0]"

text \<open>Two calls made one after the other while disconnected.\<close>

definition two_sends_trace :: "event list" where
  "two_sends_trace =
     [CallSend ''providers'' JUndefined None, CallSend ''tts'' (JObj [(''text'', JStr ''hi'')]) None]"

text \<open>A second \<^verbatim>\<open>wsConnect\<close> after the socket has opened and before the push.\<close>

definition authenticating_trace :: "event list" where
  "authenticating_trace = [CallConnect, SockOpen 0, CallConnect]"

section \<open>Basic facts\<close>

subsection \<open>Request ids are distinct\<close>

lemma digit_val_digit_char: "d < 10 \<Longrightarrow> digit_val (digit_char d) = d"
proof -
  assume "d < 10"
  then consider "d = 0" | "d = 1" | "d = 2" | "d = 3" | "d = 4" | "d = 5" | "d = 6" | "d = 7" | "d = 8" | "d = 9"
    by atomize_elim arith
  then show ?thesis
    by cases (simp_all add: digit_val_def digit_char_def)
qed

lemma read_show_nat: "read_nat (show_nat n) = n"
proof (induction n rule: show_nat.induct)
  case (1 n)
  show ?case
  proof (cases "n < 10")
    case True
    then show ?thesis
      by (simp add: show_nat.simps [of n] read_nat_def digit_val_digit_char)
  next
    case False
    with 1 have "read_nat (show_nat (n div 10)) = n div 10" by simp
    with False show ?thesis
      by (simp add: show_nat.simps [of n] read_nat_def digit_val_digit_char)
  qed
qed

lemma show_nat_inj: "show_nat m = show_nat n \<Longrightarrow> m = n"
  by (metis read_show_nat)

lemma req_id_inj: "req_id m = req_id n \<longleftrightarrow> m = n"
  by (auto simp: req_id_def dest: show_nat_inj)

subsection \<open>What the primitives leave alone\<close>

lemmas eval_defs = run_def init_state_def wsConnect_def wsSend_def ws_open_def on_close_def on_open_def
  setTimeout_def clearTimeout_def settle_def sock_state_def set_readyState_def Let_def ws_url_def js_or_def getInitialToken_def
  pending_reject_def pending_resolve_def WS_MAX_RECONNECT_DELAY_def on_message_def resolve_connect_def then_ready_catch_def ready_def
  getItem_def setItem_def new_WebSocket_def open_socket_def

lemma settle_fields [simp]:
  "ws (settle c v x s) = ws s" "wsToken (settle c v x s) = wsToken s"
  "wsPending (settle c v x s) = wsPending s" "wsReqId (settle c v x s) = wsReqId s"
  "wsReconnectDelay (settle c v x s) = wsReconnectDelay s"
  "locProtocol (settle c v x s) = locProtocol s" "locHost (settle c v x s) = locHost s"
  "metaContent (settle c v x s) = metaContent s" "sessionItem (settle c v x s) = sessionItem s"
  "sockets (settle c v x s) = sockets s" "connects (settle c v x s) = connects s"
  "thens (settle c v x s) = thens s" "timers (settle c v x s) = timers s"
  "wire (settle c v x s) = wire s" "length (calls (settle c v x s)) = length (calls s)"
  by (simp_all add: settle_def)

lemma clearTimeout_fields [simp]:
  "ws (clearTimeout t s) = ws s" "wsToken (clearTimeout t s) = wsToken s"
  "wsPending (clearTimeout t s) = wsPending s" "wsReqId (clearTimeout t s) = wsReqId s"
  "wsReconnectDelay (clearTimeout t s) = wsReconnectDelay s"
  "locProtocol (clearTimeout t s) = locProtocol s" "locHost (clearTimeout t s) = locHost s"
  "metaContent (clearTimeout t s) = metaContent s" "sessionItem (clearTimeout t s) = sessionItem s"
  "sockets (clearTimeout t s) = sockets s" "connects (clearTimeout t s) = connects s"
  "thens (clearTimeout t s) = thens s" "calls (clearTimeout t s) = calls s"
  "wire (clearTimeout t s) = wire s" "length (timers (clearTimeout t s)) = length (timers s)"
  by (simp_all add: clearTimeout_def)

lemma setTimeout_fields [simp]:
  "ws (setTimeout k d s) = ws s" "wsToken (setTimeout k d s) = wsToken s"
  "wsPending (setTimeout k d s) = wsPending s" "wsReqId (setTimeout k d s) = wsReqId s"
  "wsReconnectDelay (setTimeout k d s) = wsReconnectDelay s"
  "locProtocol (setTimeout k d s) = locProtocol s" "locHost (setTimeout k d s) = locHost s"
  "metaContent (setTimeout k d s) = metaContent s" "sessionItem (setTimeout k d s) = sessionItem s"
  "sockets (setTimeout k d s) = sockets s" "connects (setTimeout k d s) = connects s"
  "thens (setTimeout k d s) = thens s" "calls (setTimeout k d s) = calls s"
  "wire (setTimeout k d s) = wire s"
  "timers (setTimeout k d s) = timers s @ [\<lparr> t_delay = d, t_kind = k, t_active = True \<rparr>]"
  by (simp_all add: setTimeout_def)

lemma setItem_eq:
  "setItem v s =
     (if sessionItem s = StorageDenied then Inl SecurityError
      else Inr (s\<lparr> sessionItem := StorageItem (Some (js_String v)) \<rparr>))"
  by (simp add: setItem_def split: storage.splits)

lemma open_socket_Inr:
  assumes "open_socket s = Inr k"
  shows "sk_resolve k = length (connects s)" "sk_readyState k = CONNECTING"
    "ws_url s = Inr (sk_url k)" "CHR ''#'' \<notin> set (sk_url k)"
  using assms
  by (auto simp: open_socket_def new_WebSocket_def split: sum.splits if_splits)

lemma open_socket_Inl:
  "open_socket s = Inl x \<longleftrightarrow>
     ws_url s = Inl x \<or> (\<exists>url. ws_url s = Inr url \<and> CHR ''#'' \<in> set url \<and> x = SyntaxError)"
  by (auto simp: open_socket_def new_WebSocket_def split: sum.splits if_splits)

lemma ws_url_cong:
  assumes "wsToken s' = wsToken s" "metaContent s' = metaContent s" "sessionItem s' = sessionItem s"
    "locProtocol s' = locProtocol s" "locHost s' = locHost s"
  shows "ws_url s' = ws_url s"
  unfolding ws_url_def getInitialToken_def getItem_def assms
  by (rule refl)

lemma open_socket_cong:
  assumes "ws_url s' = ws_url s" "length (connects s') = length (connects s)"
  shows "open_socket s' = open_socket s"
  unfolding open_socket_def assms
  by (rule refl)

lemma ws_open_cong: "ws s' = ws s \<Longrightarrow> sockets s' = sockets s \<Longrightarrow> ws_open s' = ws_open s"
  by (cases "ws s") (simp_all add: ws_open_def)

lemma ready_fields [simp]:
  "ws (ready c s) = ws s" "wsToken (ready c s) = wsToken s"
  "wsReconnectDelay (ready c s) = wsReconnectDelay s"
  "locProtocol (ready c s) = locProtocol s" "locHost (ready c s) = locHost s"
  "metaContent (ready c s) = metaContent s" "sessionItem (ready c s) = sessionItem s"
  "sockets (ready c s) = sockets s" "connects (ready c s) = connects s"
  "thens (ready c s) = thens s" "length (calls (ready c s)) = length (calls s)"
  by (simp_all add: ready_def Let_def)

lemma ws_open_ready [simp]: "ws_open (ready c s) = ws_open s"
  by (rule ws_open_cong) simp_all

lemma fold_ready_fields [simp]:
  "ws (fold ready cs s) = ws s" "wsToken (fold ready cs s) = wsToken s"
  "wsReconnectDelay (fold ready cs s) = wsReconnectDelay s"
  "locProtocol (fold ready cs s) = locProtocol s" "locHost (fold ready cs s) = locHost s"
  "metaContent (fold ready cs s) = metaContent s" "sessionItem (fold ready cs s) = sessionItem s"
  "sockets (fold ready cs s) = sockets s" "connects (fold ready cs s) = connects s"
  "thens (fold ready cs s) = thens s" "length (calls (fold ready cs s)) = length (calls s)"
  by (induction cs arbitrary: s; simp)+

lemma pending_reject_fields [simp]:
  "ws (pending_reject p v e s) = ws s" "wsToken (pending_reject p v e s) = wsToken s"
  "wsPending (pending_reject p v e s) = wsPending s" "wsReqId (pending_reject p v e s) = wsReqId s"
  "wsReconnectDelay (pending_reject p v e s) = wsReconnectDelay s"
  "locProtocol (pending_reject p v e s) = locProtocol s" "locHost (pending_reject p v e s) = locHost s"
  "metaContent (pending_reject p v e s) = metaContent s" "sessionItem (pending_reject p v e s) = sessionItem s"
  "sockets (pending_reject p v e s) = sockets s" "connects (pending_reject p v e s) = connects s"
  "thens (pending_reject p v e s) = thens s" "wire (pending_reject p v e s) = wire s"
  "length (calls (pending_reject p v e s)) = length (calls s)"
  "length (timers (pending_reject p v e s)) = length (timers s)"
  by (simp_all add: pending_reject_def)

lemma pending_resolve_fields [simp]:
  "ws (pending_resolve p v x s) = ws s" "wsToken (pending_resolve p v x s) = wsToken s"
  "wsPending (pending_resolve p v x s) = wsPending s" "wsReqId (pending_resolve p v x s) = wsReqId s"
  "wsReconnectDelay (pending_resolve p v x s) = wsReconnectDelay s"
  "locProtocol (pending_resolve p v x s) = locProtocol s" "locHost (pending_resolve p v x s) = locHost s"
  "metaContent (pending_resolve p v x s) = metaContent s" "sessionItem (pending_resolve p v x s) = sessionItem s"
  "sockets (pending_resolve p v x s) = sockets s" "connects (pending_resolve p v x s) = connects s"
  "thens (pending_resolve p v x s) = thens s" "wire (pending_resolve p v x s) = wire s"
  "length (calls (pending_resolve p v x s)) = length (calls s)"
  "length (timers (pending_resolve p v x s)) = length (timers s)"
  by (simp_all add: pending_resolve_def)

lemma reject_all_fields [simp]:
  "ws (reject_all v e ps s) = ws s" "wsToken (reject_all v e ps s) = wsToken s"
  "wsPending (reject_all v e ps s) = wsPending s" "wsReqId (reject_all v e ps s) = wsReqId s"
  "wsReconnectDelay (reject_all v e ps s) = wsReconnectDelay s"
  "locProtocol (reject_all v e ps s) = locProtocol s" "locHost (reject_all v e ps s) = locHost s"
  "metaContent (reject_all v e ps s) = metaContent s" "sessionItem (reject_all v e ps s) = sessionItem s"
  "sockets (reject_all v e ps s) = sockets s" "connects (reject_all v e ps s) = connects s"
  "thens (reject_all v e ps s) = thens s" "wire (reject_all v e ps s) = wire s"
  "length (calls (reject_all v e ps s)) = length (calls s)"
  "length (timers (reject_all v e ps s)) = length (timers s)"
  by (induction ps arbitrary: s; simp add: split_def)+

lemma set_readyState_fields [simp]:
  "ws (set_readyState i r s) = ws s" "wsToken (set_readyState i r s) = wsToken s"
  "wsPending (set_readyState i r s) = wsPending s" "wsReqId (set_readyState i r s) = wsReqId s"
  "wsReconnectDelay (set_readyState i r s) = wsReconnectDelay s"
  "locProtocol (set_readyState i r s) = locProtocol s" "locHost (set_readyState i r s) = locHost s"
  "metaContent (set_readyState i r s) = metaContent s" "sessionItem (set_readyState i r s) = sessionItem s"
  "connects (set_readyState i r s) = connects s"
  "thens (set_readyState i r s) = thens s" "calls (set_readyState i r s) = calls s"
  "timers (set_readyState i r s) = timers s"
  "wire (set_readyState i r s) = wire s" "length (sockets (set_readyState i r s)) = length (sockets s)"
  by (simp_all add: set_readyState_def)

lemma req_id_numerals:
  "req_id 1 = ''r1''" "req_id (Suc 0) = ''r1''" "req_id 2 = ''r2''" "req_id (Suc (Suc 0)) = ''r2''"
  "req_id 3 = ''r3''"
  by (simp_all add: req_id_def show_nat.simps digit_char_def)

lemmas eval_more = eval_defs req_id_numerals auth_frame_def page_def fragment_page_def denied_page_def
  pending_set_def pending_get_def
  pending_delete_def failure_error_def new_Error_def timeout_error_def round_seconds_def

section \<open>Reconnection backoff\<close>

lemma keeps_timers_refl: "timers s' = timers s \<Longrightarrow> keeps_timers s s'"
  by (auto simp: keeps_timers_def)

lemma keeps_timers_trans: "keeps_timers s s' \<Longrightarrow> keeps_timers s' s'' \<Longrightarrow> keeps_timers s s''"
  unfolding keeps_timers_def
  by (metis (no_types, lifting) le_trans not_le_imp_less order.strict_trans2)

lemma keeps_timers_new: "keeps_timers s s' \<Longrightarrow> new_reconnects s s' = []"
  by (auto simp: keeps_timers_def new_reconnects_def filter_empty_conv in_set_conv_nth)

lemma keeps_timers_clearTimeout: "keeps_timers s (clearTimeout t s)"
  by (auto simp: keeps_timers_def clearTimeout_def nth_list_update)

lemma keeps_timers_ready: "keeps_timers s (ready c s)"
  by (auto simp: keeps_timers_def ready_def Let_def nth_append)

lemma keeps_timers_fold_ready: "keeps_timers s (fold ready cs s)"
proof (induction cs arbitrary: s)
  case Nil
  show ?case by (simp add: keeps_timers_refl)
next
  case (Cons c cs)
  show ?case
    using keeps_timers_trans [OF keeps_timers_ready Cons.IH] by simp
qed

lemma wsConnect_timers [simp]: "timers (snd (wsConnect s)) = timers s"
  by (simp add: wsConnect_def Let_def split: sum.splits)

lemma wsConnect_delay [simp]: "wsReconnectDelay (snd (wsConnect s)) = wsReconnectDelay s"
  by (simp add: wsConnect_def Let_def split: sum.splits)

lemma keeps_timers_resolve_connect: "keeps_timers s (resolve_connect p s)"
proof (cases "p < length (connects s) \<and> connects s ! p = PromisePending")
  case True
  have "keeps_timers s (s\<lparr> connects := (connects s)[p := PromiseFulfilled],
           thens := filter (\<lambda>(q, c). q \<noteq> p) (thens s) \<rparr>)"
    by (simp add: keeps_timers_refl)
  from keeps_timers_trans [OF this keeps_timers_fold_ready] True
  show ?thesis by (simp add: resolve_connect_def)
next
  case False
  then show ?thesis by (auto simp: resolve_connect_def keeps_timers_refl)
qed

lemma resolve_connect_delay [simp]: "wsReconnectDelay (resolve_connect p s) = wsReconnectDelay s"
  by (simp add: resolve_connect_def)

lemma keeps_timers_on_message: "keeps_timers s (on_message p data s)"
proof -
  have a: "keeps_timers s (s\<lparr> wsToken := tok, sessionItem := it \<rparr>)" for tok it
    by (simp add: keeps_timers_refl)
  have b: "keeps_timers s (s\<lparr> wsPending := m \<rparr>)" for m
    by (simp add: keeps_timers_refl)
  have c: "keeps_timers s (settle c v x (clearTimeout t (s\<lparr> wsPending := m \<rparr>)))" for c v x t m
    by (auto simp: keeps_timers_def clearTimeout_def nth_list_update)
  show ?thesis
    unfolding on_message_def setItem_eq
    by (auto simp: Let_def keeps_timers_refl c pending_resolve_def pending_reject_def
        intro: keeps_timers_trans [OF a keeps_timers_resolve_connect]
        split: option.splits)
qed

lemma on_message_delay [simp]: "wsReconnectDelay (on_message p data s) = wsReconnectDelay s"
  by (simp add: on_message_def setItem_eq Let_def split: option.splits)

lemma keeps_timers_then_ready_catch: "keeps_timers s (then_ready_catch p c s)"
  by (cases "connects s ! p") (simp_all add: then_ready_catch_def keeps_timers_ready keeps_timers_refl)

lemma keeps_timers_wsSend: "keeps_timers s (snd (wsSend a pl tm s))"
proof -
  let ?s1 = "s\<lparr> calls := calls s @
                 [\<lparr> c_action = a, c_payload = (if pl = JUndefined then JObj [] else pl),
                    c_timeoutMs = (case tm of None \<Rightarrow> 30000 | Some ms \<Rightarrow> ms),
                    c_settles = [] \<rparr>] \<rparr>"
  have a: "keeps_timers s ?s1" by (simp add: keeps_timers_refl)
  have b: "keeps_timers s (snd (wsConnect ?s1))" by (simp add: keeps_timers_refl)
  have c: "keeps_timers (snd (wsConnect ?s1)) (then_ready_catch p c (snd (wsConnect ?s1)))" for p c
    by (rule keeps_timers_then_ready_catch)
  show ?thesis
    unfolding wsSend_def Let_def
    using keeps_timers_trans [OF a keeps_timers_ready] keeps_timers_trans [OF b c]
    by (auto simp: split_def)
qed

lemma wsSend_delay [simp]: "wsReconnectDelay (snd (wsSend a pl tm s)) = wsReconnectDelay s"
  by (simp add: wsSend_def Let_def then_ready_catch_def split_def split: promise.splits)

lemma keeps_timers_on_timer: "keeps_timers s (on_timer k (clearTimeout t s))"
proof (cases k)
  case Reconnect
  then show ?thesis
    using keeps_timers_trans [OF keeps_timers_clearTimeout [of s t], of "snd (wsConnect (clearTimeout t s))"]
    by (simp add: keeps_timers_refl)
next
  case (RequestTimer ident c ms)
  then show ?thesis
    by (auto simp: keeps_timers_def clearTimeout_def nth_list_update)
qed

lemma on_timer_delay [simp]: "wsReconnectDelay (on_timer k s) = wsReconnectDelay s"
  by (cases k) simp_all

lemma on_close_timers:
  "timers (on_close s) =
     timers (reject_all ViaClose (new_Error ''WebSocket closed'') (wsPending s) (s\<lparr> ws := None \<rparr>))
       @ [\<lparr> t_delay = wsReconnectDelay s, t_kind = Reconnect, t_active = True \<rparr>]"
  by (simp add: on_close_def Let_def)

lemma on_close_delay:
  "wsReconnectDelay (on_close s) = min (wsReconnectDelay s * 2) WS_MAX_RECONNECT_DELAY"
  by (simp add: on_close_def Let_def)

lemma step_new_reconnects:
  "new_reconnects s (step s e) = (if delivers_close s e then [wsReconnectDelay s] else [])"
proof (cases e)
  case (SockClose i)
  then show ?thesis
    by (auto simp: new_reconnects_def on_close_timers)
next
  case (SockMessage i data)
  then show ?thesis by (simp add: keeps_timers_new keeps_timers_on_message keeps_timers_refl)
next
  case (CallSend a pl tm)
  then show ?thesis by (simp add: keeps_timers_new keeps_timers_wsSend)
next
  case (TimerFire t)
  then show ?thesis by (simp add: keeps_timers_new keeps_timers_on_timer keeps_timers_refl)
qed (simp_all add: keeps_timers_new keeps_timers_refl on_open_def)

lemma step_delay:
  "wsReconnectDelay (step s e) =
     (if delivers_open s e then 500
      else if delivers_close s e then min (wsReconnectDelay s * 2) WS_MAX_RECONNECT_DELAY
      else wsReconnectDelay s)"
  by (cases e) (auto simp: on_open_def on_close_delay)

lemma backoff_from:
  "wsReconnectDelay s = min (500 * 2 ^ j) 16000 \<Longrightarrow> no_open s es \<Longrightarrow>
   reconnect_delays s es = map (\<lambda>k. min (500 * 2 ^ (j + k)) 16000) [0..<closes s es]"
proof (induction es arbitrary: s j)
  case Nil
  show ?case by simp
next
  case (Cons e es)
  from Cons.prems have no: "\<not> delivers_open s e" and rest: "no_open (step s e) es" by simp_all
  show ?case
  proof (cases "delivers_close s e")
    case True
    with no Cons.prems(1) have "wsReconnectDelay (step s e) = min (500 * 2 ^ Suc j) 16000"
      by (simp add: step_delay WS_MAX_RECONNECT_DELAY_def min_def)
    from Cons.IH [OF this rest] True Cons.prems(1) show ?thesis
      by (simp add: step_new_reconnects upt_rec [of 0] map_Suc_upt [symmetric] del: upt_Suc)
  next
    case False
    with no Cons.prems(1) have "wsReconnectDelay (step s e) = min (500 * 2 ^ j) 16000"
      by (simp add: step_delay)
    from Cons.IH [OF this rest] False show ?thesis
      by (simp add: step_new_reconnects)
  qed
qed

text \<open>
  C3. The delay starts at 500 ms and an open event sets it back to 500 ms. From a state
  where it is 500 ms, along any run in which no open event is delivered, the reconnect
  timers set are one per close event delivered, and the k-th of them has the delay
  min(500 * 2^(k-1), 16000) ms.
\<close>

theorem backoff_growth_and_reset:
  "wsReconnectDelay (init_state protocol host meta item) = 500 \<and>
   (delivers_open s' e \<longrightarrow> wsReconnectDelay (step s' e) = 500) \<and>
   (wsReconnectDelay s = 500 \<and> no_open s es \<longrightarrow>
      reconnect_delays s es = map (\<lambda>k. min (500 * 2 ^ (k - 1)) 16000) [1..<Suc (closes s es)])"
proof (intro conjI impI)
  show "wsReconnectDelay (init_state protocol host meta item) = 500"
    by (simp add: init_state_def)
next
  assume "delivers_open s' e"
  then show "wsReconnectDelay (step s' e) = 500"
    by (simp add: step_delay)
next
  assume a: "wsReconnectDelay s = 500 \<and> no_open s es"
  then have "reconnect_delays s es = map (\<lambda>k. min (500 * 2 ^ (0 + k)) 16000) [0..<closes s es]"
    by (intro backoff_from) simp_all
  also have "\<dots> = map (\<lambda>k. min (500 * 2 ^ (k - 1)) 16000) [1..<Suc (closes s es)]"
    by (simp add: map_Suc_upt [symmetric] del: upt_Suc)
  finally show "reconnect_delays s es =
      map (\<lambda>k. min (500 * 2 ^ (k - 1)) 16000) [1..<Suc (closes s es)]" .
qed

theorem backoff_growth_and_reset_witness:
  "wsReconnectDelay (init_state ''https:'' ''example.org'' None (StorageItem None)) = 500 \<and>
   no_open (init_state ''https:'' ''example.org'' None (StorageItem None)) backoff_trace \<and>
   closes (init_state ''https:'' ''example.org'' None (StorageItem None)) backoff_trace = 7 \<and>
   reconnect_delays (init_state ''https:'' ''example.org'' None (StorageItem None)) backoff_trace =
     [500, 1000, 2000, 4000, 8000, 16000, 16000] \<and>
   delivers_open (run (init_state ''https:'' ''example.org'' None (StorageItem None)) backoff_trace) (SockOpen 7) \<and>
   wsReconnectDelay (run (init_state ''https:'' ''example.org'' None (StorageItem None)) backoff_trace) = 16000 \<and>
   wsReconnectDelay (step (run (init_state ''https:'' ''example.org'' None (StorageItem None)) backoff_trace) (SockOpen 7)) = 500"
proof -
  let ?s = "init_state ''https:'' ''example.org'' None (StorageItem None)"
  have a: "wsReconnectDelay ?s = 500" by (simp add: init_state_def)
  have b: "no_open ?s backoff_trace" by (simp add: eval_defs backoff_trace_def)
  have c: "closes ?s backoff_trace = 7" by (simp add: eval_defs backoff_trace_def)
  have d: "delivers_open (run ?s backoff_trace) (SockOpen 7)" by (simp add: eval_defs backoff_trace_def)
  have e: "wsReconnectDelay (run ?s backoff_trace) = 16000" by (simp add: eval_defs backoff_trace_def)
  have f: "map (\<lambda>k. min (500 * 2 ^ (k - 1)) 16000) [1..<Suc 7] = [500, 1000, 2000, 4000, 8000, 16000, 16000::nat]"
    by (simp add: upt_conv_Cons)
  from backoff_growth_and_reset [where s' = "run ?s backoff_trace" and e = "SockOpen 7"
      and s = ?s and es = backoff_trace] a b c d e f
  show ?thesis by simp
qed

section \<open>The invariant holds in every reachable state\<close>

lemma inv_core_cong:
  assumes "wsPending s' = wsPending s" "thens s' = thens s" "calls s' = calls s"
    "timers s' = timers s" "wsReqId s' = wsReqId s" "wire s' = wire s"
  shows "inv_core s' = inv_core s"
  unfolding inv_core_def unsettled_def pending_calls_def waiting_calls_def entry_ok_def timer_ok_def assms
  by (rule refl)

lemma inv_init: "inv (init_state protocol host meta item)"
  by (simp add: inv_def inv_core_def inv_conn_def init_state_def pending_calls_def waiting_calls_def)

lemma inv_conn_wsConnect: "inv_conn s \<Longrightarrow> inv_conn (snd (wsConnect s))"
  by (auto simp: inv_conn_def wsConnect_def Let_def nth_append less_Suc_eq open_socket_Inr
      split: sum.splits)

lemma inv_core_wsConnect: "inv_core (snd (wsConnect s)) = inv_core s"
  by (rule inv_core_cong) (simp_all add: wsConnect_def Let_def split: sum.splits)

lemma inv_wsConnect: "inv s \<Longrightarrow> inv (snd (wsConnect s))"
  by (simp add: inv_def inv_conn_wsConnect inv_core_wsConnect)

lemma map_sk_resolve_update:
  "map sk_resolve (xs[i := (xs ! i)\<lparr> sk_readyState := r \<rparr>]) = map sk_resolve xs"
proof (rule nth_equalityI)
  fix j
  assume "j < length (map sk_resolve (xs[i := (xs ! i)\<lparr> sk_readyState := r \<rparr>]))"
  then show "map sk_resolve (xs[i := (xs ! i)\<lparr> sk_readyState := r \<rparr>]) ! j = map sk_resolve xs ! j"
    by (cases "i = j") simp_all
qed simp

lemma inv_conn_set_readyState: "inv_conn (set_readyState i r s) = inv_conn s"
  by (simp add: inv_conn_def set_readyState_def map_sk_resolve_update)

lemma inv_core_set_readyState: "inv_core (set_readyState i r s) = inv_core s"
  by (rule inv_core_cong) (simp_all add: set_readyState_def)

lemma inv_set_readyState: "inv (set_readyState i r s) = inv s"
  by (simp add: inv_def inv_conn_set_readyState inv_core_set_readyState)

lemma pending_delete_JStr: "pending_delete (JStr k) m = filter (\<lambda>kp. fst kp \<noteq> k) m"
  by (simp add: pending_delete_def split_def)

lemma pending_get_Some:
  "pending_get m j = Some p \<longleftrightarrow> (\<exists>k. j = JStr k \<and> map_of m k = Some p)"
  by (cases j) (simp_all add: pending_get_def)

lemma map_of_filter_key:
  "map_of (filter (\<lambda>kp. fst kp \<noteq> k) m) k' = (if k' = k then None else map_of m k')"
  by (induction m) auto

lemma pending_set_fresh: "key \<notin> fst ` set m \<Longrightarrow> pending_set key p m = m @ [(key, p)]"
  by (simp add: pending_set_def)

lemma ready_open:
  "ws_open s \<Longrightarrow> ready c s =
     s\<lparr> wsReqId := wsReqId s + 1,
        timers := timers s @ [\<lparr> t_delay = c_timeoutMs (calls s ! c),
                   t_kind = RequestTimer (req_id (wsReqId s + 1)) c (c_timeoutMs (calls s ! c)),
                   t_active = True \<rparr>],
        wsPending := pending_set (req_id (wsReqId s + 1)) \<lparr> p_call = c, p_timer = length (timers s) \<rparr> (wsPending s),
        wire := wire s @ [(ws s, \<lparr> f_id = req_id (wsReqId s + 1), f_action = c_action (calls s ! c),
                                  f_payload = c_payload (calls s ! c) \<rparr>)] \<rparr>"
  by (simp add: ready_def Let_def setTimeout_def)

lemma ready_closed:
  "\<not> ws_open s \<Longrightarrow> ready c s = settle c ViaNotConnected (Rejected (new_Error ''WebSocket not connected'')) s"
  by (simp add: ready_def)

lemma pending_calls_settle [simp]: "pending_calls (settle c v x s) = pending_calls s"
  by (simp add: pending_calls_def)

lemma waiting_calls_settle [simp]: "waiting_calls (settle c v x s) = waiting_calls s"
  by (simp add: waiting_calls_def)

lemma calls_settle_other: "c' \<noteq> c \<Longrightarrow> calls (settle c v x s) ! c' = calls s ! c'"
  by (simp add: settle_def)

lemma calls_settle_same:
  "c < length (calls s) \<Longrightarrow>
   calls (settle c v x s) ! c = (calls s ! c)\<lparr> c_settles := c_settles (calls s ! c) @ [(v, x)] \<rparr>"
  by (simp add: settle_def)

lemma timeout_settle [simp]: "c_timeoutMs (calls (settle c v x s) ! c') = c_timeoutMs (calls s ! c')"
  by (cases "c' = c"; cases "c < length (calls s)") (simp_all add: settle_def)

lemma unsettled_settle_other: "c' \<noteq> c \<Longrightarrow> unsettled (settle c v x s) c' = unsettled s c'"
  by (simp add: unsettled_def calls_settle_other)

lemma inv_core_settle:
  assumes "inv_core s" "unsettled s c" "c \<notin> set (pending_calls s @ waiting_calls s)"
  shows "inv_core (settle c v x s)"
proof -
  let ?s = "settle c v x s"
  have 1: "distinct (map fst (wsPending ?s))" "distinct (pending_calls ?s @ waiting_calls ?s)"
    using assms(1) by (simp_all add: inv_core_def)
  have 3: "\<forall>c' \<in> set (pending_calls ?s @ waiting_calls ?s). unsettled ?s c'"
  proof
    fix c' assume a: "c' \<in> set (pending_calls ?s @ waiting_calls ?s)"
    with assms(3) have "c' \<noteq> c" by auto
    moreover from a assms(1) have "unsettled s c'" by (simp add: inv_core_def)
    ultimately show "unsettled ?s c'" by (simp add: unsettled_settle_other)
  qed
  have 4: "\<forall>kp \<in> set (wsPending ?s). entry_ok ?s kp"
    using assms(1) by (simp add: inv_core_def entry_ok_def)
  have 5: "\<forall>t < length (timers ?s). timer_ok ?s t"
    using assms(1) by (simp add: inv_core_def timer_ok_def)
  have 6: "\<forall>c' < length (calls ?s). length (c_settles (calls ?s ! c')) \<le> 1"
  proof (intro allI impI)
    fix c' assume "c' < length (calls ?s)"
    then show "length (c_settles (calls ?s ! c')) \<le> 1"
      using assms(1,2)
      by (cases "c' = c") (simp_all add: inv_core_def unsettled_def calls_settle_other calls_settle_same)
  qed
  have 7: "map (\<lambda>w. f_id (snd w)) (wire ?s) = map req_id [1..<Suc (wsReqId ?s)]"
    using assms(1) by (simp add: inv_core_def del: upt_Suc)
  show ?thesis
    unfolding inv_core_def using 1 3 4 5 6 7 by blast
qed

lemma inv_core_keys: "inv_core s \<Longrightarrow> distinct (map fst (wsPending s))"
  and inv_core_distinct: "inv_core s \<Longrightarrow> distinct (pending_calls s @ waiting_calls s)"
  and inv_core_unsettled: "inv_core s \<Longrightarrow> c \<in> set (pending_calls s @ waiting_calls s) \<Longrightarrow> unsettled s c"
  and inv_core_entry: "inv_core s \<Longrightarrow> kp \<in> set (wsPending s) \<Longrightarrow> entry_ok s kp"
  and inv_core_timer: "inv_core s \<Longrightarrow> t < length (timers s) \<Longrightarrow> timer_ok s t"
  and inv_core_once: "inv_core s \<Longrightarrow> c < length (calls s) \<Longrightarrow> length (c_settles (calls s ! c)) \<le> 1"
  and inv_core_wire: "inv_core s \<Longrightarrow> map (\<lambda>w. f_id (snd w)) (wire s) = map req_id [1..<Suc (wsReqId s)]"
  unfolding inv_core_def by blast+

lemma keys_below: "inv_core s \<Longrightarrow> req_id (wsReqId s + 1) \<notin> fst ` set (wsPending s)"
proof
  assume a: "inv_core s" and "req_id (wsReqId s + 1) \<in> fst ` set (wsPending s)"
  then obtain kp where kp: "kp \<in> set (wsPending s)" "fst kp = req_id (wsReqId s + 1)" by auto
  from inv_core_entry [OF a kp(1)] have "fst kp \<in> req_id ` {1..wsReqId s}"
    by (simp add: entry_ok_def)
  then obtain m where "fst kp = req_id m" "m \<le> wsReqId s" by auto
  with kp(2) show False by (simp add: req_id_inj)
qed

lemma inv_core_register:
  assumes "inv_core s" "unsettled s c" "c \<notin> set (pending_calls s @ waiting_calls s)" "ws_open s"
  shows "inv_core (ready c s)"
proof -
  let ?id = "req_id (wsReqId s + 1)"
  let ?tm = "c_timeoutMs (calls s ! c)"
  let ?e = "\<lparr> p_call = c, p_timer = length (timers s) \<rparr>"
  let ?t = "\<lparr> t_delay = ?tm, t_kind = RequestTimer ?id c ?tm, t_active = True \<rparr>"
  let ?s = "ready c s"
  have fresh: "?id \<notin> fst ` set (wsPending s)" by (rule keys_below [OF assms(1)])
  have P: "wsPending ?s = wsPending s @ [(?id, ?e)]"
    using assms(4) fresh by (simp add: ready_open pending_set_fresh)
  have T: "timers ?s = timers s @ [?t]" using assms(4) by (simp add: ready_open)
  have C: "calls ?s = calls s" using assms(4) by (simp add: ready_open)
  have N: "wsReqId ?s = wsReqId s + 1" using assms(4) by (simp add: ready_open)
  have H: "thens ?s = thens s" by simp
  have W: "map (\<lambda>w. f_id (snd w)) (wire ?s) = map (\<lambda>w. f_id (snd w)) (wire s) @ [?id]"
    using assms(4) by (simp add: ready_open)
  have pc: "pending_calls ?s = pending_calls s @ [c]" by (simp add: pending_calls_def P)
  have wc: "waiting_calls ?s = waiting_calls s" by (simp add: waiting_calls_def H)
  have u: "unsettled ?s c' = unsettled s c'" for c' by (simp add: unsettled_def C)
  have 1: "distinct (map fst (wsPending ?s))"
    using assms(1) fresh by (simp add: P inv_core_def)
  have 2: "distinct (pending_calls ?s @ waiting_calls ?s)"
    using assms(1,3) by (auto simp: pc wc inv_core_def)
  have 3: "\<forall>c' \<in> set (pending_calls ?s @ waiting_calls ?s). unsettled ?s c'"
    using assms(1,2) by (auto simp: pc wc u inv_core_def)
  have 4: "\<forall>kp \<in> set (wsPending ?s). entry_ok ?s kp"
  proof
    fix kp assume "kp \<in> set (wsPending ?s)"
    then consider "kp \<in> set (wsPending s)" | "kp = (?id, ?e)" by (auto simp: P)
    then show "entry_ok ?s kp"
    proof cases
      case 1
      with assms(1) have "entry_ok s kp" by (simp add: inv_core_def)
      then show ?thesis
        by (auto simp: entry_ok_def T C N nth_append)
    next
      case 2
      with assms(2) show ?thesis
        by (simp add: entry_ok_def T C N unsettled_def)
    qed
  qed
  have 5: "\<forall>t < length (timers ?s). timer_ok ?s t"
  proof (intro allI impI)
    fix t assume "t < length (timers ?s)"
    then consider "t < length (timers s)" | "t = length (timers s)" by (auto simp: T less_Suc_eq)
    then show "timer_ok ?s t"
    proof cases
      case 1
      with assms(1) have "timer_ok s t" by (simp add: inv_core_def)
      with 1 show ?thesis
        by (auto simp: timer_ok_def T P nth_append map_add_Some_iff)
    next
      case 2
      with fresh show ?thesis
        by (auto simp: timer_ok_def T P map_add_Some_iff map_of_eq_None_iff)
    qed
  qed
  have 6: "\<forall>c' < length (calls ?s). length (c_settles (calls ?s ! c')) \<le> 1"
    using assms(1) by (simp add: C inv_core_def)
  have 7: "map (\<lambda>w. f_id (snd w)) (wire ?s) = map req_id [1..<Suc (wsReqId ?s)]"
    using assms(1) by (simp add: W N inv_core_def)
  show ?thesis
    unfolding inv_core_def using 1 2 3 4 5 6 7 by blast
qed

lemma inv_core_ready:
  assumes "inv_core s" "unsettled s c" "c \<notin> set (pending_calls s @ waiting_calls s)"
  shows "inv_core (ready c s)"
  using assms inv_core_register inv_core_settle
  by (cases "ws_open s") (simp_all add: ready_closed)

lemma inv_conn_cong:
  "thens s' = thens s \<Longrightarrow> connects s' = connects s \<Longrightarrow> sockets s' = sockets s \<Longrightarrow>
   inv_conn s' = inv_conn s"
  by (simp add: inv_conn_def)

lemma pending_set_calls:
  "set (map (\<lambda>kp. p_call (snd kp)) (pending_set k e m)) \<subseteq> insert (p_call e) (set (map (\<lambda>kp. p_call (snd kp)) m))"
  by (auto simp: pending_set_def split: if_splits)

lemma ready_pending_calls: "set (pending_calls (ready c s)) \<subseteq> insert c (set (pending_calls s))"
proof (cases "ws_open s")
  case True
  then show ?thesis
    using pending_set_calls [of "req_id (wsReqId s + 1)" "\<lparr> p_call = c, p_timer = length (timers s) \<rparr>" "wsPending s"]
    by (simp add: pending_calls_def ready_open)
next
  case False
  then show ?thesis by (auto simp: ready_closed)
qed

lemma ready_waiting_calls [simp]: "waiting_calls (ready c s) = waiting_calls s"
  by (simp add: waiting_calls_def)

lemma ready_unsettled_other: "c' \<noteq> c \<Longrightarrow> unsettled (ready c s) c' = unsettled s c'"
  by (cases "ws_open s") (simp_all add: ready_closed unsettled_settle_other, simp add: ready_open unsettled_def)

lemma inv_core_fold_ready:
  "inv_core s \<Longrightarrow> distinct cs \<Longrightarrow>
   \<forall>c \<in> set cs. unsettled s c \<and> c \<notin> set (pending_calls s @ waiting_calls s) \<Longrightarrow>
   inv_core (fold ready cs s)"
proof (induction cs arbitrary: s)
  case Nil
  then show ?case by simp
next
  case (Cons c cs)
  have a: "inv_core (ready c s)"
    using Cons.prems by (intro inv_core_ready) simp_all
  have b: "\<forall>c' \<in> set cs. unsettled (ready c s) c' \<and>
      c' \<notin> set (pending_calls (ready c s) @ waiting_calls (ready c s))"
  proof
    fix c' assume c': "c' \<in> set cs"
    with Cons.prems(2) have ne: "c' \<noteq> c" by auto
    from c' Cons.prems(3) have "unsettled s c'" "c' \<notin> set (pending_calls s)" "c' \<notin> set (waiting_calls s)"
      by auto
    with ne ready_pending_calls [of c s]
    show "unsettled (ready c s) c' \<and> c' \<notin> set (pending_calls (ready c s) @ waiting_calls (ready c s))"
      by (auto simp: ready_unsettled_other)
  qed
  from Cons.IH [OF a _ b] Cons.prems(2) show ?case by simp
qed

lemma distinct_snd_filter:
  "distinct (map snd xs) \<Longrightarrow>
   set (map snd (filter P xs)) \<inter> set (map snd (filter (\<lambda>x. \<not> P x) xs)) = {}"
  by (induction xs) auto

lemma inv_resolve_connect:
  assumes "inv s"
  shows "inv (resolve_connect p s)"
proof (cases "p < length (connects s) \<and> connects s ! p = PromisePending")
  case False
  with assms show ?thesis by (auto simp: resolve_connect_def)
next
  case True
  let ?s0 = "s\<lparr> connects := (connects s)[p := PromiseFulfilled],
                 thens := filter (\<lambda>(q, c). q \<noteq> p) (thens s) \<rparr>"
  let ?cs = "map snd (filter (\<lambda>(q, c). q = p) (thens s))"
  from assms have core: "inv_core s" and conn: "inv_conn s" by (simp_all add: inv_def)
  have pc0: "pending_calls ?s0 = pending_calls s" by (simp add: pending_calls_def)
  have wc0: "waiting_calls ?s0 = map snd (filter (\<lambda>(q, c). q \<noteq> p) (thens s))"
    by (simp add: waiting_calls_def)
  have sub: "set (waiting_calls ?s0) \<subseteq> set (waiting_calls s)"
    by (auto simp: wc0 waiting_calls_def)
  have d: "distinct (pending_calls s)" "distinct (waiting_calls s)"
    "set (pending_calls s) \<inter> set (waiting_calls s) = {}"
    using inv_core_distinct [OF core] by auto
  have dw0: "distinct (waiting_calls ?s0)"
    using d(2) unfolding wc0 by (simp add: waiting_calls_def distinct_map_filter)
  have u0: "unsettled ?s0 c = unsettled s c" for c by (simp add: unsettled_def)
  have e0: "entry_ok ?s0 kp = entry_ok s kp" for kp by (simp add: entry_ok_def)
  have t0: "timer_ok ?s0 t = timer_ok s t" for t by (simp add: timer_ok_def)
  have core0: "inv_core ?s0"
    unfolding inv_core_def
  proof (intro conjI)
    show "distinct (map fst (wsPending ?s0))" using inv_core_keys [OF core] by simp
    show "distinct (pending_calls ?s0 @ waiting_calls ?s0)"
      using d dw0 sub by (auto simp: pc0)
    show "\<forall>c \<in> set (pending_calls ?s0 @ waiting_calls ?s0). unsettled ?s0 c"
      using inv_core_unsettled [OF core] sub by (auto simp: pc0 u0)
    show "\<forall>kp \<in> set (wsPending ?s0). entry_ok ?s0 kp"
      using inv_core_entry [OF core] by (simp add: e0)
    show "\<forall>t < length (timers ?s0). timer_ok ?s0 t"
      using inv_core_timer [OF core] by (simp add: t0)
    show "\<forall>c < length (calls ?s0). length (c_settles (calls ?s0 ! c)) \<le> 1"
      using inv_core_once [OF core] by simp
    show "map (\<lambda>w. f_id (snd w)) (wire ?s0) = map req_id [1..<Suc (wsReqId ?s0)]"
      using inv_core_wire [OF core] by simp
  qed
  have dcs: "distinct ?cs"
    using d(2) by (simp add: waiting_calls_def distinct_map_filter)
  have cs_sub: "set ?cs \<subseteq> set (waiting_calls s)" by (auto simp: waiting_calls_def)
  have disj: "set ?cs \<inter> set (waiting_calls ?s0) = {}"
    using distinct_snd_filter [of "thens s" "\<lambda>(q, c). q = p"] d(2)
    by (simp add: wc0 waiting_calls_def split_def)
  have pre: "\<forall>c \<in> set ?cs. unsettled ?s0 c \<and> c \<notin> set (pending_calls ?s0 @ waiting_calls ?s0)"
  proof
    fix c assume c: "c \<in> set ?cs"
    with cs_sub have w: "c \<in> set (waiting_calls s)" by blast
    with inv_core_unsettled [OF core, of c] have "unsettled s c" by simp
    moreover from w d(3) have "c \<notin> set (pending_calls s)" by blast
    moreover from c disj have "c \<notin> set (waiting_calls ?s0)" by blast
    ultimately show "unsettled ?s0 c \<and> c \<notin> set (pending_calls ?s0 @ waiting_calls ?s0)"
      by (simp add: u0 pc0)
  qed
  have core1: "inv_core (fold ready ?cs ?s0)"
    by (rule inv_core_fold_ready [OF core0 dcs pre])
  have conn0: "inv_conn ?s0"
    using conn by (auto simp: inv_conn_def nth_list_update)
  have "inv_conn (fold ready ?cs ?s0) = inv_conn ?s0"
    by (rule inv_conn_cong) simp_all
  with conn0 core1 True show ?thesis
    by (simp add: resolve_connect_def inv_def)
qed

lemma distinct_map_inj:
  "distinct (map f xs) \<Longrightarrow> x \<in> set xs \<Longrightarrow> y \<in> set xs \<Longrightarrow> f x = f y \<Longrightarrow> x = y"
  by (meson distinct_map inj_onD)

lemma timers_clearTimeout_other: "t' \<noteq> t \<Longrightarrow> timers (clearTimeout t s) ! t' = timers s ! t'"
  by (simp add: clearTimeout_def)

lemma timers_clearTimeout_same:
  "t < length (timers s) \<Longrightarrow> timers (clearTimeout t s) ! t = (timers s ! t)\<lparr> t_active := False \<rparr>"
  by (simp add: clearTimeout_def)

text \<open>Taking an entry out of the table, clearing its timer and settling its call.\<close>

lemma inv_core_complete:
  assumes core: "inv_core s" and m: "map_of (wsPending s) k = Some p"
  shows "inv_core (settle (p_call p) v x (clearTimeout (p_timer p)
           (s\<lparr> wsPending := pending_delete (JStr k) (wsPending s) \<rparr>)))"
  unfolding pending_delete_JStr
proof -
  let ?m = "filter (\<lambda>kp. fst kp \<noteq> k) (wsPending s)"
  let ?s1 = "clearTimeout (p_timer p) (s\<lparr> wsPending := ?m \<rparr>)"
  let ?s = "settle (p_call p) v x ?s1"
  from m have mem: "(k, p) \<in> set (wsPending s)" by (rule map_of_SomeD)
  have ek: "entry_ok s (k, p)" by (rule inv_core_entry [OF core mem])
  have P: "wsPending ?s = ?m" by simp
  have H: "thens ?s = thens s" by simp
  have sub: "set ?m \<subseteq> set (wsPending s)" by auto
  have pc: "pending_calls ?s = map (\<lambda>kp. p_call (snd kp)) ?m"
    unfolding pending_calls_def P by (rule refl)
  have wc: "waiting_calls ?s = waiting_calls s" by (simp add: waiting_calls_def)
  have d: "distinct (pending_calls s)" "distinct (waiting_calls s)"
    "set (pending_calls s) \<inter> set (waiting_calls s) = {}"
    using inv_core_distinct [OF core] by auto
  have keys: "distinct (map fst (wsPending s))" by (rule inv_core_keys [OF core])
  have other_call: "p_call (snd kp) \<noteq> p_call p" if "kp \<in> set ?m" for kp
  proof
    assume eq: "p_call (snd kp) = p_call p"
    from that have "kp \<in> set (wsPending s)" "fst kp \<noteq> k" by auto
    with distinct_map_inj [OF d(1) [unfolded pending_calls_def], of kp "(k, p)"] mem eq
    show False by auto
  qed
  have other_timer: "p_timer (snd kp) \<noteq> p_timer p" if "kp \<in> set ?m" for kp
  proof
    assume eq: "p_timer (snd kp) = p_timer p"
    from that have in_s: "kp \<in> set (wsPending s)" and ne: "fst kp \<noteq> k" by auto
    from inv_core_entry [OF core in_s] ek eq have "fst kp = k"
      by (simp add: entry_ok_def)
    with ne show False by simp
  qed
  have pcs: "set (pending_calls ?s) \<subseteq> set (pending_calls s)"
    unfolding pc pending_calls_def by auto
  have notin: "p_call p \<notin> set (pending_calls ?s @ waiting_calls ?s)"
  proof -
    have "p_call p \<in> set (pending_calls s)" using mem by (force simp: pending_calls_def)
    with d(3) have "p_call p \<notin> set (waiting_calls s)" by blast
    moreover have "p_call p \<notin> set (pending_calls ?s)"
      unfolding pc
    proof
      assume "p_call p \<in> set (map (\<lambda>kp. p_call (snd kp)) ?m)"
      then obtain kp where "kp \<in> set ?m" "p_call (snd kp) = p_call p" by auto
      with other_call [of kp] show False by simp
    qed
    ultimately show ?thesis unfolding wc by simp
  qed
  have calls_other: "calls ?s ! c = calls s ! c" if "c \<noteq> p_call p" for c
    using that by (simp add: calls_settle_other)
  have 1: "distinct (map fst (wsPending ?s))"
    using keys by (simp add: P distinct_map_filter)
  have "distinct (map (\<lambda>kp. p_call (snd kp)) ?m)"
    using d(1) unfolding pending_calls_def by (rule distinct_map_filter)
  then have "distinct (pending_calls ?s)" by (simp only: pc)
  with d pcs have 2: "distinct (pending_calls ?s @ waiting_calls ?s)"
    unfolding wc by auto
  have 3: "\<forall>c \<in> set (pending_calls ?s @ waiting_calls ?s). unsettled ?s c"
  proof
    fix c assume c: "c \<in> set (pending_calls ?s @ waiting_calls ?s)"
    with notin have ne: "c \<noteq> p_call p" by auto
    from c pcs have "c \<in> set (pending_calls s @ waiting_calls s)" unfolding wc by auto
    from inv_core_unsettled [OF core this] ne show "unsettled ?s c"
      by (simp add: unsettled_def calls_other)
  qed
  have 4: "\<forall>kp \<in> set (wsPending ?s). entry_ok ?s kp"
  proof
    fix kp assume "kp \<in> set (wsPending ?s)"
    then have kp: "kp \<in> set ?m" by (simp add: P)
    then have "kp \<in> set (wsPending s)" by auto
    from inv_core_entry [OF core this] other_timer [OF kp] show "entry_ok ?s kp"
      by (simp add: entry_ok_def timers_clearTimeout_other)
  qed
  have 5: "\<forall>t < length (timers ?s). timer_ok ?s t"
  proof (intro allI impI)
    fix t assume t: "t < length (timers ?s)"
    show "timer_ok ?s t"
    proof (cases "t = p_timer p")
      case True
      with t show ?thesis by (simp add: timer_ok_def timers_clearTimeout_same)
    next
      case False
      from t have "timer_ok s t" by (intro inv_core_timer [OF core]) simp
      with False m show ?thesis
        by (auto simp: timer_ok_def timers_clearTimeout_other P map_of_filter_key)
    qed
  qed
  have 6: "\<forall>c < length (calls ?s). length (c_settles (calls ?s ! c)) \<le> 1"
  proof (intro allI impI)
    fix c assume c: "c < length (calls ?s)"
    show "length (c_settles (calls ?s ! c)) \<le> 1"
    proof (cases "c = p_call p")
      case True
      have "unsettled s (p_call p)"
        using mem by (intro inv_core_unsettled [OF core]) (force simp: pending_calls_def)
      with True show ?thesis by (simp add: unsettled_def calls_settle_same)
    next
      case False
      with c inv_core_once [OF core, of c] show ?thesis by (simp add: calls_other)
    qed
  qed
  have 7: "map (\<lambda>w. f_id (snd w)) (wire ?s) = map req_id [1..<Suc (wsReqId ?s)]"
    using inv_core_wire [OF core] by simp
  show "inv_core ?s"
    unfolding inv_core_def using 1 2 3 4 5 6 7 by blast
qed

lemma pending_reject_calls_other:
  "c \<noteq> p_call p \<Longrightarrow> calls (pending_reject p v e s) ! c = calls s ! c"
  by (simp add: pending_reject_def calls_settle_other)

lemma pending_reject_calls_same:
  "p_call p < length (calls s) \<Longrightarrow>
   calls (pending_reject p v e s) ! p_call p =
     (calls s ! p_call p)\<lparr> c_settles := c_settles (calls s ! p_call p) @ [(v, Rejected e)] \<rparr>"
  by (simp add: pending_reject_def calls_settle_same)

lemma pending_reject_timer_kind:
  "t_kind (timers (pending_reject p v e s) ! t) = t_kind (timers s ! t)"
  by (cases "t = p_timer p"; cases "p_timer p < length (timers s)")
     (simp_all add: pending_reject_def clearTimeout_def)

lemma pending_reject_timer_active:
  "t_active (timers (pending_reject p v e s) ! t) \<Longrightarrow> t_active (timers s ! t)"
  by (cases "t = p_timer p"; cases "p_timer p < length (timers s)")
     (simp_all add: pending_reject_def clearTimeout_def)

lemma pending_reject_timer_cleared:
  "p_timer p < length (timers s) \<Longrightarrow> \<not> t_active (timers (pending_reject p v e s) ! p_timer p)"
  by (simp add: pending_reject_def clearTimeout_def)

lemma reject_all_calls_other:
  "c \<notin> (\<lambda>kp. p_call (snd kp)) ` set ps \<Longrightarrow> calls (reject_all v e ps s) ! c = calls s ! c"
  by (induction ps arbitrary: s) (auto simp: split_def pending_reject_calls_other)

lemma reject_all_timer_kind:
  "t_kind (timers (reject_all v e ps s) ! t) = t_kind (timers s ! t)"
  by (induction ps arbitrary: s) (auto simp: split_def pending_reject_timer_kind)

lemma reject_all_timer_active:
  "t_active (timers (reject_all v e ps s) ! t) \<Longrightarrow> t_active (timers s ! t)"
proof (induction ps arbitrary: s)
  case Nil
  then show ?case by simp
next
  case (Cons kp ps)
  then have "t_active (timers (pending_reject (snd kp) v e s) ! t)" by (simp add: split_def)
  then show ?case by (rule pending_reject_timer_active)
qed

lemma reject_all_timer_cleared:
  "kp \<in> set ps \<Longrightarrow> p_timer (snd kp) < length (timers s) \<Longrightarrow>
   \<not> t_active (timers (reject_all v e ps s) ! p_timer (snd kp))"
proof (induction ps arbitrary: s)
  case Nil
  then show ?case by simp
next
  case (Cons a ps)
  show ?case
  proof (cases "kp \<in> set ps")
    case True
    with Cons.IH [of "pending_reject (snd a) v e s"] Cons.prems(2) show ?thesis
      by (simp add: split_def)
  next
    case False
    with Cons.prems have "kp = a" by simp
    with Cons.prems(2) have "\<not> t_active (timers (pending_reject (snd a) v e s) ! p_timer (snd kp))"
      by (simp add: pending_reject_timer_cleared)
    then show ?thesis
      using reject_all_timer_active [of v e ps "pending_reject (snd a) v e s" "p_timer (snd kp)"]
      by (auto simp: split_def)
  qed
qed

lemma reject_all_calls_same:
  "distinct (map (\<lambda>kp. p_call (snd kp)) ps) \<Longrightarrow> kp \<in> set ps \<Longrightarrow>
   p_call (snd kp) < length (calls s) \<Longrightarrow>
   calls (reject_all v e ps s) ! p_call (snd kp) =
     (calls s ! p_call (snd kp))\<lparr> c_settles := c_settles (calls s ! p_call (snd kp)) @ [(v, Rejected e)] \<rparr>"
proof (induction ps arbitrary: s)
  case Nil
  then show ?case by simp
next
  case (Cons a ps)
  show ?case
  proof (cases "kp = a")
    case True
    with Cons.prems(1) have "p_call (snd kp) \<notin> (\<lambda>kp. p_call (snd kp)) ` set ps" by simp
    from reject_all_calls_other [OF this] True Cons.prems(3) show ?thesis
      by (simp add: split_def pending_reject_calls_same)
  next
    case False
    with Cons.prems have in_ps: "kp \<in> set ps" and d: "distinct (map (\<lambda>kp. p_call (snd kp)) ps)"
      and nin: "p_call (snd a) \<notin> (\<lambda>kp. p_call (snd kp)) ` set ps"
      by simp_all
    from in_ps nin have ne: "p_call (snd kp) \<noteq> p_call (snd a)"
      by (metis imageI)
    from Cons.IH [OF d in_ps, of "pending_reject (snd a) v e s"] Cons.prems(3) ne show ?thesis
      by (simp add: split_def pending_reject_calls_other)
  qed
qed

lemma on_close_fields [simp]:
  "ws (on_close s) = None" "wsToken (on_close s) = wsToken s" "wsPending (on_close s) = []"
  "wsReqId (on_close s) = wsReqId s"
  "locProtocol (on_close s) = locProtocol s" "locHost (on_close s) = locHost s"
  "metaContent (on_close s) = metaContent s" "sessionItem (on_close s) = sessionItem s"
  "sockets (on_close s) = sockets s" "connects (on_close s) = connects s"
  "thens (on_close s) = thens s" "wire (on_close s) = wire s"
  "calls (on_close s) = calls (reject_all ViaClose (new_Error ''WebSocket closed'') (wsPending s) (s\<lparr> ws := None \<rparr>))"
  by (simp_all add: on_close_def Let_def)

lemma inv_core_on_close:
  assumes core: "inv_core s"
  shows "inv_core (on_close s)"
proof -
  let ?e = "new_Error ''WebSocket closed''"
  let ?r = "reject_all ViaClose ?e (wsPending s) (s\<lparr> ws := None \<rparr>)"
  let ?s = "on_close s"
  have T: "timers ?s = timers ?r @ [\<lparr> t_delay = wsReconnectDelay s, t_kind = Reconnect, t_active = True \<rparr>]"
    by (rule on_close_timers)
  have lenT: "length (timers ?r) = length (timers s)" by simp
  have d: "distinct (pending_calls s)" "distinct (waiting_calls s)"
    "set (pending_calls s) \<inter> set (waiting_calls s) = {}"
    using inv_core_distinct [OF core] by auto
  have pc: "pending_calls ?s = []" by (simp add: pending_calls_def)
  have wc: "waiting_calls ?s = waiting_calls s" by (simp add: waiting_calls_def)
  have 1: "distinct (map fst (wsPending ?s))" by simp
  have 2: "distinct (pending_calls ?s @ waiting_calls ?s)" using d(2) by (simp add: pc wc)
  have 3: "\<forall>c \<in> set (pending_calls ?s @ waiting_calls ?s). unsettled ?s c"
  proof
    fix c assume "c \<in> set (pending_calls ?s @ waiting_calls ?s)"
    then have w: "c \<in> set (waiting_calls s)" by (simp add: pc wc)
    with d(3) have "c \<notin> (\<lambda>kp. p_call (snd kp)) ` set (wsPending s)"
      by (auto simp: pending_calls_def)
    from reject_all_calls_other [OF this] have "calls ?s ! c = calls s ! c" by simp
    moreover from w inv_core_unsettled [OF core, of c] have "unsettled s c" by simp
    ultimately show "unsettled ?s c" by (simp add: unsettled_def)
  qed
  have 4: "\<forall>kp \<in> set (wsPending ?s). entry_ok ?s kp" by simp
  have 5: "\<forall>t < length (timers ?s). timer_ok ?s t"
  proof (intro allI impI)
    fix t assume "t < length (timers ?s)"
    then consider "t < length (timers s)" | "t = length (timers s)"
      by (auto simp: T less_Suc_eq)
    then show "timer_ok ?s t"
    proof cases
      case 1
      have "\<not> t_active (timers ?r ! t)" if k: "t_kind (timers ?r ! t) = RequestTimer k c ms" for k c ms
      proof
        assume a: "t_active (timers ?r ! t)"
        from k have "t_kind (timers s ! t) = RequestTimer k c ms"
          using reject_all_timer_kind [of ViaClose ?e "wsPending s" "s\<lparr> ws := None \<rparr>" t] by simp
        moreover from a have "t_active (timers s ! t)"
          using reject_all_timer_active [of ViaClose ?e "wsPending s" "s\<lparr> ws := None \<rparr>" t] by simp
        ultimately have "map_of (wsPending s) k = Some \<lparr> p_call = c, p_timer = t \<rparr>"
          using inv_core_timer [OF core 1] by (simp add: timer_ok_def)
        then have "(k, \<lparr> p_call = c, p_timer = t \<rparr>) \<in> set (wsPending s)" by (rule map_of_SomeD)
        from reject_all_timer_cleared [OF this, of "s\<lparr> ws := None \<rparr>" ViaClose ?e] 1 a
        show False by simp
      qed
      with 1 show ?thesis by (auto simp: timer_ok_def T nth_append)
    next
      case 2
      then show ?thesis by (simp add: timer_ok_def T nth_append)
    qed
  qed
  have 6: "\<forall>c < length (calls ?s). length (c_settles (calls ?s ! c)) \<le> 1"
  proof (intro allI impI)
    fix c assume c: "c < length (calls ?s)"
    show "length (c_settles (calls ?s ! c)) \<le> 1"
    proof (cases "c \<in> (\<lambda>kp. p_call (snd kp)) ` set (wsPending s)")
      case True
      then obtain kp where kp: "kp \<in> set (wsPending s)" "c = p_call (snd kp)" by auto
      then have "unsettled s c"
        by (intro inv_core_unsettled [OF core]) (auto simp: pending_calls_def)
      with reject_all_calls_same [OF d(1) [unfolded pending_calls_def] kp(1), of "s\<lparr> ws := None \<rparr>" ViaClose ?e] kp(2)
      show ?thesis by (simp add: unsettled_def)
    next
      case False
      from reject_all_calls_other [OF this] c inv_core_once [OF core, of c] show ?thesis by simp
    qed
  qed
  have 7: "map (\<lambda>w. f_id (snd w)) (wire ?s) = map req_id [1..<Suc (wsReqId ?s)]"
    using inv_core_wire [OF core] by simp
  show ?thesis
    unfolding inv_core_def using 1 2 3 4 5 6 7 by blast
qed

lemma inv_core_clear_reconnect:
  assumes core: "inv_core s" and k: "t_kind (timers s ! t) = Reconnect"
  shows "inv_core (clearTimeout t s)"
proof -
  let ?s = "clearTimeout t s"
  have pc: "pending_calls ?s = pending_calls s" by (simp add: pending_calls_def)
  have wc: "waiting_calls ?s = waiting_calls s" by (simp add: waiting_calls_def)
  have u: "unsettled ?s c = unsettled s c" for c by (simp add: unsettled_def)
  have 4: "\<forall>kp \<in> set (wsPending ?s). entry_ok ?s kp"
  proof
    fix kp assume "kp \<in> set (wsPending ?s)"
    then have e: "entry_ok s kp" using inv_core_entry [OF core] by simp
    with k have "p_timer (snd kp) \<noteq> t" by (auto simp: entry_ok_def)
    with e show "entry_ok ?s kp" by (simp add: entry_ok_def timers_clearTimeout_other)
  qed
  have 5: "\<forall>t' < length (timers ?s). timer_ok ?s t'"
  proof (intro allI impI)
    fix t' assume t': "t' < length (timers ?s)"
    show "timer_ok ?s t'"
    proof (cases "t' = t")
      case True
      with t' k show ?thesis by (simp add: timer_ok_def timers_clearTimeout_same)
    next
      case False
      with t' inv_core_timer [OF core, of t'] show ?thesis
        by (simp add: timer_ok_def timers_clearTimeout_other)
    qed
  qed
  show ?thesis
    unfolding inv_core_def pc wc u
    using inv_core_keys [OF core] inv_core_distinct [OF core] inv_core_unsettled [OF core]
      inv_core_once [OF core] inv_core_wire [OF core] 4 5
    by simp
qed

lemma inv_core_new_call:
  assumes core: "inv_core s"
  shows "inv_core (s\<lparr> calls := calls s @ [\<lparr> c_action = a, c_payload = pl, c_timeoutMs = ms, c_settles = [] \<rparr>] \<rparr>)"
    (is "inv_core ?s")
proof -
  have pc: "pending_calls ?s = pending_calls s" by (simp add: pending_calls_def)
  have wc: "waiting_calls ?s = waiting_calls s" by (simp add: waiting_calls_def)
  have 3: "\<forall>c \<in> set (pending_calls ?s @ waiting_calls ?s). unsettled ?s c"
  proof
    fix c assume "c \<in> set (pending_calls ?s @ waiting_calls ?s)"
    then have "unsettled s c" using inv_core_unsettled [OF core, of c] by (simp add: pc wc)
    then show "unsettled ?s c" by (simp add: unsettled_def nth_append)
  qed
  have 4: "\<forall>kp \<in> set (wsPending ?s). entry_ok ?s kp"
  proof
    fix kp assume "kp \<in> set (wsPending ?s)"
    then have "entry_ok s kp" using inv_core_entry [OF core, of kp] by simp
    then show "entry_ok ?s kp" by (simp add: entry_ok_def nth_append)
  qed
  have 5: "\<forall>t < length (timers ?s). timer_ok ?s t"
    using inv_core_timer [OF core] by (simp add: timer_ok_def)
  have 6: "\<forall>c < length (calls ?s). length (c_settles (calls ?s ! c)) \<le> 1"
    using inv_core_once [OF core] by (auto simp: nth_append less_Suc_eq)
  show ?thesis
    unfolding inv_core_def
    using inv_core_keys [OF core] inv_core_distinct [OF core] inv_core_wire [OF core] 3 4 5 6
    by (simp add: pc wc)
qed

lemma new_call_fresh:
  assumes core: "inv_core s"
  shows "length (calls s) \<notin> set (pending_calls s @ waiting_calls s)"
proof
  assume "length (calls s) \<in> set (pending_calls s @ waiting_calls s)"
  from inv_core_unsettled [OF core this] show False by (simp add: unsettled_def)
qed

lemma inv_core_then:
  assumes core: "inv_core s" and u: "unsettled s c" and n: "c \<notin> set (pending_calls s @ waiting_calls s)"
  shows "inv_core (s\<lparr> thens := thens s @ [(p, c)] \<rparr>)" (is "inv_core ?s")
proof -
  have pc: "pending_calls ?s = pending_calls s" by (simp add: pending_calls_def)
  have wc: "waiting_calls ?s = waiting_calls s @ [c]" by (simp add: waiting_calls_def)
  have us: "unsettled ?s c' = unsettled s c'" for c' by (simp add: unsettled_def)
  have 2: "distinct (pending_calls ?s @ waiting_calls ?s)"
    using inv_core_distinct [OF core] n by (auto simp: pc wc)
  have 3: "\<forall>c' \<in> set (pending_calls ?s @ waiting_calls ?s). unsettled ?s c'"
    using inv_core_unsettled [OF core] u by (auto simp: pc wc us)
  have 4: "\<forall>kp \<in> set (wsPending ?s). entry_ok ?s kp"
    using inv_core_entry [OF core] by (simp add: entry_ok_def)
  have 5: "\<forall>t < length (timers ?s). timer_ok ?s t"
    using inv_core_timer [OF core] by (simp add: timer_ok_def)
  show ?thesis
    unfolding inv_core_def
    using inv_core_keys [OF core] inv_core_once [OF core] inv_core_wire [OF core] 2 3 4 5
    by simp
qed

lemma wsConnect_fields [simp]:
  "wsToken (snd (wsConnect s)) = wsToken s" "wsPending (snd (wsConnect s)) = wsPending s"
  "wsReqId (snd (wsConnect s)) = wsReqId s"
  "locProtocol (snd (wsConnect s)) = locProtocol s" "locHost (snd (wsConnect s)) = locHost s"
  "metaContent (snd (wsConnect s)) = metaContent s" "sessionItem (snd (wsConnect s)) = sessionItem s"
  "thens (snd (wsConnect s)) = thens s" "calls (snd (wsConnect s)) = calls s"
  "wire (snd (wsConnect s)) = wire s" "fst (wsConnect s) = length (connects s)"
  "length (connects (snd (wsConnect s))) = Suc (length (connects s))"
  by (simp_all add: wsConnect_def Let_def split: sum.splits)

lemma wsConnect_connects:
  "connects (snd (wsConnect s)) = connects s @
     [if ws_open s then PromiseFulfilled
      else case open_socket s of Inl x \<Rightarrow> PromiseRejected x | Inr socket \<Rightarrow> PromisePending]"
  by (simp add: wsConnect_def Let_def split: sum.splits)

lemma wsConnect_sockets:
  "sockets (snd (wsConnect s)) =
     (if ws_open s then sockets s
      else case open_socket s of Inl x \<Rightarrow> sockets s | Inr socket \<Rightarrow> sockets s @ [socket])"
  by (simp add: wsConnect_def Let_def split: sum.splits)

lemma wsConnect_ws:
  "ws (snd (wsConnect s)) =
     (if ws_open s then ws s
      else case open_socket s of Inl x \<Rightarrow> ws s | Inr socket \<Rightarrow> Some (length (sockets s)))"
  by (simp add: wsConnect_def Let_def split: sum.splits)

lemma wsConnect_ws_open: "\<not> ws_open s \<Longrightarrow> \<not> ws_open (snd (wsConnect s))"
  by (auto simp: wsConnect_def Let_def ws_open_def open_socket_Inr split: sum.splits option.splits)

lemma open_socket_new_call [simp]: "open_socket (s\<lparr> calls := cs \<rparr>) = open_socket s"
  by (rule open_socket_cong, rule ws_url_cong) simp_all

lemma ws_open_new_call [simp]: "ws_open (s\<lparr> calls := cs \<rparr>) = ws_open s"
  by (rule ws_open_cong) simp_all

text \<open>
  \<^verbatim>\<open>wsSend\<close> by cases: the request goes out at once, or waits for the promise of its
  own \<^verbatim>\<open>wsConnect\<close>, or is rejected with the exception that \<^verbatim>\<open>wsConnect\<close> threw.
\<close>

lemma wsSend_open:
  "ws_open s \<Longrightarrow> snd (wsSend a pl tm s) =
     ready (length (calls s)) (s\<lparr> calls := calls s @
       [\<lparr> c_action = a, c_payload = (if pl = JUndefined then JObj [] else pl),
          c_timeoutMs = (case tm of None \<Rightarrow> 30000 | Some ms \<Rightarrow> ms), c_settles = [] \<rparr>] \<rparr>)"
  by (simp add: wsSend_def Let_def)

lemma wsSend_waits:
  "\<not> ws_open s \<Longrightarrow> open_socket s = Inr k \<Longrightarrow> snd (wsSend a pl tm s) =
     (let s2 = snd (wsConnect (s\<lparr> calls := calls s @
       [\<lparr> c_action = a, c_payload = (if pl = JUndefined then JObj [] else pl),
          c_timeoutMs = (case tm of None \<Rightarrow> 30000 | Some ms \<Rightarrow> ms), c_settles = [] \<rparr>] \<rparr>))
      in s2\<lparr> thens := thens s2 @ [(length (connects s), length (calls s))] \<rparr>)"
  by (simp add: wsSend_def Let_def split_def then_ready_catch_def wsConnect_connects)

lemma wsSend_throws:
  "\<not> ws_open s \<Longrightarrow> open_socket s = Inl x \<Longrightarrow> snd (wsSend a pl tm s) =
     settle (length (calls s)) ViaCatch (RejectedThrown x)
       (snd (wsConnect (s\<lparr> calls := calls s @
       [\<lparr> c_action = a, c_payload = (if pl = JUndefined then JObj [] else pl),
          c_timeoutMs = (case tm of None \<Rightarrow> 30000 | Some ms \<Rightarrow> ms), c_settles = [] \<rparr>] \<rparr>)))"
  by (simp add: wsSend_def Let_def split_def then_ready_catch_def wsConnect_connects)

lemma inv_wsSend: 
  assumes "inv s"
  shows "inv (snd (wsSend a pl tm s))"
proof -
  let ?c = "length (calls s)"
  let ?s1 = "s\<lparr> calls := calls s @
                 [\<lparr> c_action = a, c_payload = (if pl = JUndefined then JObj [] else pl),
                    c_timeoutMs = (case tm of None \<Rightarrow> 30000 | Some ms \<Rightarrow> ms),
                    c_settles = [] \<rparr>] \<rparr>"
  from assms have core: "inv_core s" and conn: "inv_conn s" by (simp_all add: inv_def)
  have core1: "inv_core ?s1" by (rule inv_core_new_call [OF core])
  have conn1: "inv_conn ?s1" using conn by (simp add: inv_conn_def)
  have u1: "unsettled ?s1 ?c" by (simp add: unsettled_def)
  have n1: "?c \<notin> set (pending_calls ?s1 @ waiting_calls ?s1)"
    using new_call_fresh [OF core] by (simp add: pending_calls_def waiting_calls_def)
  show ?thesis
  proof (cases "ws_open ?s1")
    case True
    have "inv_core (ready ?c ?s1)" by (rule inv_core_ready [OF core1 u1 n1])
    moreover have "inv_conn (ready ?c ?s1) = inv_conn ?s1" by (rule inv_conn_cong) simp_all
    ultimately show ?thesis using True conn1 by (simp add: wsSend_def Let_def inv_def)
  next
    case False
    let ?s2 = "snd (wsConnect ?s1)"
    let ?p = "length (connects s)"
    have inv2: "inv ?s2" using core1 conn1 by (intro inv_wsConnect) (simp add: inv_def)
    then have core2: "inv_core ?s2" and conn2: "inv_conn ?s2" by (simp_all add: inv_def)
    from False have closed: "\<not> ws_open s" by simp
    have u2: "unsettled ?s2 ?c" by (simp add: unsettled_def)
    have n2: "?c \<notin> set (pending_calls ?s2 @ waiting_calls ?s2)"
      using n1 by (simp add: pending_calls_def waiting_calls_def)
    show ?thesis
    proof (cases "open_socket s")
      case (Inl x)
      have "inv_core (settle ?c ViaCatch (RejectedThrown x) ?s2)"
        by (rule inv_core_settle [OF core2 u2 n2])
      moreover have "inv_conn (settle ?c ViaCatch (RejectedThrown x) ?s2) = inv_conn ?s2"
        by (rule inv_conn_cong) simp_all
      ultimately show ?thesis
        using conn2 by (simp add: wsSend_throws [OF closed Inl] inv_def)
    next
      case (Inr k)
      have np: "connects ?s2 ! ?p = PromisePending"
        using closed Inr by (simp add: wsConnect_connects)
      have core3: "inv_core (?s2\<lparr> thens := thens ?s2 @ [(?p, ?c)] \<rparr>)"
        by (rule inv_core_then [OF core2 u2 n2])
      have conn3: "inv_conn (?s2\<lparr> thens := thens ?s2 @ [(?p, ?c)] \<rparr>)"
        using conn2 np by (auto simp: inv_conn_def)
      from core3 conn3 show ?thesis
        by (simp add: wsSend_waits [OF closed Inr] Let_def inv_def)
    qed
  qed
qed

lemma inv_on_message:
  assumes "inv s"
  shows "inv (on_message p data s)"
proof -
  from assms have core: "inv_core s" and conn: "inv_conn s" by (simp_all add: inv_def)
  have auth: "inv (resolve_connect p (s\<lparr> wsToken := tok, sessionItem := it \<rparr>))" for tok it
  proof (rule inv_resolve_connect)
    have "inv_core (s\<lparr> wsToken := tok, sessionItem := it \<rparr>) = inv_core s"
      by (rule inv_core_cong) simp_all
    moreover have "inv_conn (s\<lparr> wsToken := tok, sessionItem := it \<rparr>) = inv_conn s"
      by (rule inv_conn_cong) simp_all
    ultimately show "inv (s\<lparr> wsToken := tok, sessionItem := it \<rparr>)"
      using assms by (simp add: inv_def)
  qed
  have fin: "inv (settle (p_call q) v x (clearTimeout (p_timer q)
      (s\<lparr> wsPending := pending_delete j (wsPending s) \<rparr>)))"
    if "pending_get (wsPending s) j = Some q" for q v x j
  proof -
    from that obtain k where k: "j = JStr k" "map_of (wsPending s) k = Some q"
      by (auto simp: pending_get_Some)
    have "inv_conn (settle (p_call q) v x (clearTimeout (p_timer q)
      (s\<lparr> wsPending := pending_delete j (wsPending s) \<rparr>))) = inv_conn s"
      by (rule inv_conn_cong) simp_all
    with inv_core_complete [OF core k(2), of v x] conn k(1) show ?thesis
      by (simp add: inv_def)
  qed
  have tok: "inv (s\<lparr> wsToken := tok \<rparr>)" for tok
  proof -
    have "inv_core (s\<lparr> wsToken := tok \<rparr>) = inv_core s"
      by (rule inv_core_cong) simp_all
    moreover have "inv_conn (s\<lparr> wsToken := tok \<rparr>) = inv_conn s"
      by (rule inv_conn_cong) simp_all
    ultimately show ?thesis using assms by (simp add: inv_def)
  qed
  show ?thesis
    using assms auth fin tok
    by (auto simp: on_message_def setItem_eq Let_def pending_resolve_def pending_reject_def
        split: option.splits)
qed

lemma clearTimeout_wsPending:
  "(clearTimeout t s)\<lparr> wsPending := m \<rparr> = clearTimeout t (s\<lparr> wsPending := m \<rparr>)"
  by (cases s) (simp add: clearTimeout_def)

lemma inv_step: 
  assumes "inv s"
  shows "inv (step s e)"
proof (cases e)
  case CallConnect
  with assms show ?thesis by (simp add: inv_wsConnect)
next
  case (CallSend a pl tm)
  with assms show ?thesis by (simp add: inv_wsSend)
next
  case (SockOpen i)
  have "inv_core (on_open (set_readyState i OPEN s)) = inv_core (set_readyState i OPEN s)"
    by (rule inv_core_cong) (simp_all add: on_open_def)
  moreover have "inv_conn (on_open (set_readyState i OPEN s)) = inv_conn (set_readyState i OPEN s)"
    by (rule inv_conn_cong) (simp_all add: on_open_def)
  ultimately have "inv (on_open (set_readyState i OPEN s)) = inv (set_readyState i OPEN s)"
    by (simp add: inv_def)
  with assms SockOpen show ?thesis by (simp add: inv_set_readyState)
next
  case (SockMessage i data)
  with assms show ?thesis by (simp add: inv_on_message)
next
  case (SockClosing i)
  with assms show ?thesis by (simp add: inv_set_readyState)
next
  case (SockError i)
  with assms show ?thesis by simp
next
  case (SockClose i)
  let ?s1 = "set_readyState i CLOSED s"
  from assms have "inv ?s1" by (simp add: inv_set_readyState)
  then have core: "inv_core ?s1" and conn: "inv_conn ?s1" by (simp_all add: inv_def)
  have "inv_conn (on_close ?s1) = inv_conn ?s1" by (rule inv_conn_cong) simp_all
  with inv_core_on_close [OF core] conn have "inv (on_close ?s1)" by (simp add: inv_def)
  with assms SockClose show ?thesis by simp
next
  case (TimerFire t)
  show ?thesis
  proof (cases "t < length (timers s) \<and> t_active (timers s ! t)")
    case False
    with assms TimerFire show ?thesis by auto
  next
    case True
    from assms have core: "inv_core s" and conn: "inv_conn s" by (simp_all add: inv_def)
    show ?thesis
    proof (cases "t_kind (timers s ! t)")
      case Reconnect
      have "inv_conn (clearTimeout t s) = inv_conn s" by (rule inv_conn_cong) simp_all
      with inv_core_clear_reconnect [OF core Reconnect] conn have "inv (clearTimeout t s)"
        by (simp add: inv_def)
      then have "inv (snd (wsConnect (clearTimeout t s)))" by (rule inv_wsConnect)
      with True TimerFire Reconnect show ?thesis by simp
    next
      case (RequestTimer k c ms)
      with True inv_core_timer [OF core, of t]
      have m: "map_of (wsPending s) k = Some \<lparr> p_call = c, p_timer = t \<rparr>"
        by (simp add: timer_ok_def)
      let ?s' = "settle c ViaTimeout (Rejected (timeout_error ms))
          (clearTimeout t (s\<lparr> wsPending := pending_delete (JStr k) (wsPending s) \<rparr>))"
      have eq: "step s e = ?s'"
        using True TimerFire RequestTimer by (simp add: clearTimeout_wsPending)
      have "inv_conn ?s' = inv_conn s" by (rule inv_conn_cong) simp_all
      with inv_core_complete [OF core m, of ViaTimeout "Rejected (timeout_error ms)"] conn
      show ?thesis by (simp add: eq inv_def)
    qed
  qed
qed

lemma inv_run: "inv s \<Longrightarrow> inv (run s es)"
  unfolding run_def by (induction es arbitrary: s) (simp_all add: inv_step)

lemma inv_reachable: "inv (run (init_state protocol host meta item) es)"
  by (rule inv_run [OF inv_init])

section \<open>Settling the pending requests\<close>

lemma resolve_connect_fields [simp]:
  "ws (resolve_connect p s) = ws s" "wsToken (resolve_connect p s) = wsToken s"
  "locProtocol (resolve_connect p s) = locProtocol s" "locHost (resolve_connect p s) = locHost s"
  "metaContent (resolve_connect p s) = metaContent s" "sessionItem (resolve_connect p s) = sessionItem s"
  "sockets (resolve_connect p s) = sockets s"
  "length (connects (resolve_connect p s)) = length (connects s)"
  "length (calls (resolve_connect p s)) = length (calls s)"
  by (simp_all add: resolve_connect_def)

lemma on_message_fields [simp]:
  "ws (on_message p data s) = ws s"
  "locProtocol (on_message p data s) = locProtocol s" "locHost (on_message p data s) = locHost s"
  "metaContent (on_message p data s) = metaContent s"
  "sockets (on_message p data s) = sockets s"
  "length (connects (on_message p data s)) = length (connects s)"
  "length (calls (on_message p data s)) = length (calls s)"
  by (simp_all add: on_message_def setItem_eq Let_def split: option.splits)

lemma wsSend_fields [simp]:
  "wsToken (snd (wsSend a pl tm s)) = wsToken s"
  "locProtocol (snd (wsSend a pl tm s)) = locProtocol s" "locHost (snd (wsSend a pl tm s)) = locHost s"
  "metaContent (snd (wsSend a pl tm s)) = metaContent s" "sessionItem (snd (wsSend a pl tm s)) = sessionItem s"
  by (simp_all add: wsSend_def Let_def split_def then_ready_catch_def split: promise.splits)

lemma on_timer_fields [simp]:
  "wsToken (on_timer k s) = wsToken s"
  "locProtocol (on_timer k s) = locProtocol s" "locHost (on_timer k s) = locHost s"
  "metaContent (on_timer k s) = metaContent s" "sessionItem (on_timer k s) = sessionItem s"
  by (cases k; simp)+

lemma pending_unsettled:
  assumes "inv s" "kp \<in> set (wsPending s)"
  shows "p_call (snd kp) < length (calls s)" "c_settles (calls s ! p_call (snd kp)) = []"
proof -
  from assms(1) have core: "inv_core s" by (simp add: inv_def)
  from assms(2) have "p_call (snd kp) \<in> set (pending_calls s @ waiting_calls s)"
    by (simp add: pending_calls_def)
  from inv_core_unsettled [OF core this]
  show "p_call (snd kp) < length (calls s)" "c_settles (calls s ! p_call (snd kp)) = []"
    by (simp_all add: unsettled_def)
qed

lemma two_pending_state:
  "run page two_pending_trace =
     \<lparr> ws = Some 0, wsToken = JStr ''abc'',
       wsPending = [(''r1'', \<lparr> p_call = 0, p_timer = 0 \<rparr>), (''r2'', \<lparr> p_call = 1, p_timer = 1 \<rparr>)],
       wsReqId = 2, wsReconnectDelay = 500, locProtocol = ''https:'', locHost = ''example.org'',
       metaContent = Some ''fresh'', sessionItem = StorageItem (Some ''abc''),
       sockets = [\<lparr> sk_url = ''wss://example.org/ws?token=fresh'', sk_readyState = OPEN, sk_resolve = 0 \<rparr>],
       connects = [PromiseFulfilled], thens = [],
       calls = [\<lparr> c_action = ''providers'', c_payload = JObj [], c_timeoutMs = 30000, c_settles = [] \<rparr>,
                \<lparr> c_action = ''tts'', c_payload = JObj [(''text'', JStr ''hi'')], c_timeoutMs = 30000, c_settles = [] \<rparr>],
       timers = [\<lparr> t_delay = 30000, t_kind = RequestTimer ''r1'' 0 30000, t_active = True \<rparr>,
                 \<lparr> t_delay = 30000, t_kind = RequestTimer ''r2'' 1 30000, t_active = True \<rparr>],
       wire = [(Some 0, \<lparr> f_id = ''r1'', f_action = ''providers'', f_payload = JObj [] \<rparr>),
               (Some 0, \<lparr> f_id = ''r2'', f_action = ''tts'', f_payload = JObj [(''text'', JStr ''hi'')] \<rparr>)] \<rparr>"
  by (simp add: two_pending_trace_def eval_more)

subsection \<open>Close\<close>

text \<open>
  C4. In a reachable state with N entries in the table, a close event delivered on any
  socket rejects the promise of each of the N calls, which was unsettled, with the error
  \<^verbatim>\<open>WebSocket closed\<close>, within the close listener itself; it clears their timers and
  leaves the table empty. The N entries belong to N different calls.
\<close>

theorem close_rejects_all_pending:
  assumes "s = run (init_state protocol host meta item) es"
    and "delivers_close s (SockClose i)"
  shows "wsPending (step s (SockClose i)) = [] \<and>
    distinct (map (\<lambda>kp. p_call (snd kp)) (wsPending s)) \<and>
    (\<forall>kp \<in> set (wsPending s).
       c_settles (calls s ! p_call (snd kp)) = [] \<and>
       c_settles (calls (step s (SockClose i)) ! p_call (snd kp)) =
         [(ViaClose, Rejected (new_Error ''WebSocket closed''))] \<and>
       \<not> t_active (timers (step s (SockClose i)) ! p_timer (snd kp)))"
proof -
  let ?s1 = "set_readyState i CLOSED s"
  let ?r = "reject_all ViaClose (new_Error ''WebSocket closed'') (wsPending s) (?s1\<lparr> ws := None \<rparr>)"
  from assms(1) have inv: "inv s" by (simp add: inv_reachable)
  then have core: "inv_core s" by (simp add: inv_def)
  from assms(2) have st: "step s (SockClose i) = on_close ?s1" by auto
  have d: "distinct (map (\<lambda>kp. p_call (snd kp)) (wsPending s))"
    using inv_core_distinct [OF core] by (simp add: pending_calls_def)
  have each: "c_settles (calls s ! p_call (snd kp)) = [] \<and>
       c_settles (calls (on_close ?s1) ! p_call (snd kp)) =
         [(ViaClose, Rejected (new_Error ''WebSocket closed''))] \<and>
       \<not> t_active (timers (on_close ?s1) ! p_timer (snd kp))"
    if kp: "kp \<in> set (wsPending s)" for kp
  proof -
    note u = pending_unsettled [OF inv kp]
    from inv_core_entry [OF core kp] have t: "p_timer (snd kp) < length (timers s)"
      by (simp add: entry_ok_def)
    have "calls ?r ! p_call (snd kp) =
        (calls s ! p_call (snd kp))\<lparr> c_settles := c_settles (calls s ! p_call (snd kp)) @
          [(ViaClose, Rejected (new_Error ''WebSocket closed''))] \<rparr>"
      using reject_all_calls_same [OF d kp, of "?s1\<lparr> ws := None \<rparr>" ViaClose "new_Error ''WebSocket closed''"] u(1)
      by simp
    moreover have "\<not> t_active (timers ?r ! p_timer (snd kp))"
      using reject_all_timer_cleared [OF kp, of "?s1\<lparr> ws := None \<rparr>" ViaClose "new_Error ''WebSocket closed''"] t
      by simp
    ultimately show ?thesis
      using u(2) t by (simp add: on_close_timers nth_append)
  qed
  show ?thesis
    unfolding st using d each by simp
qed

theorem close_rejects_all_pending_witness:
  "delivers_close (run page two_pending_trace) (SockClose 0) \<and>
   map fst (wsPending (run page two_pending_trace)) = [''r1'', ''r2''] \<and>
   wsPending (step (run page two_pending_trace) (SockClose 0)) = [] \<and>
   c_settles (calls (step (run page two_pending_trace) (SockClose 0)) ! 0) =
     [(ViaClose, Rejected (new_Error ''WebSocket closed''))] \<and>
   c_settles (calls (step (run page two_pending_trace) (SockClose 0)) ! 1) =
     [(ViaClose, Rejected (new_Error ''WebSocket closed''))]"
proof -
  have a: "delivers_close (run page two_pending_trace) (SockClose 0)"
    by (simp add: two_pending_state sock_state_def)
  from close_rejects_all_pending [OF _ a, of "''https:''" "''example.org''" "Some ''fresh''" "StorageItem (Some ''cached'')" two_pending_trace]
  have "wsPending (step (run page two_pending_trace) (SockClose 0)) = [] \<and>
    (\<forall>kp \<in> set (wsPending (run page two_pending_trace)).
       c_settles (calls (step (run page two_pending_trace) (SockClose 0)) ! p_call (snd kp)) =
         [(ViaClose, Rejected (new_Error ''WebSocket closed''))])"
    by (simp add: page_def)
  then show ?thesis
    using a by (simp add: two_pending_state)
qed

subsection \<open>Response frames\<close>

lemma response_delivered:
  assumes "s = run (init_state protocol host meta item) es"
    and "sock_state s i = Some OPEN" and "response_frame msg"
    and "pending_get (wsPending s) (js_get msg ''id'') = Some p"
  shows "c_settles (calls (step s (SockMessage i (Some msg))) ! p_call p) =
     [if truthy (js_get msg ''ok'') then (ViaSuccess, Resolved (js_get msg ''result''))
      else (ViaFailure, Rejected (failure_error msg))]"
    and "wsPending (step s (SockMessage i (Some msg))) = pending_delete (js_get msg ''id'') (wsPending s)"
    and "\<not> t_active (timers (step s (SockMessage i (Some msg))) ! p_timer p)"
proof -
  from assms(1) have inv: "inv s" by (simp add: inv_reachable)
  from assms(4) obtain k where k: "js_get msg ''id'' = JStr k" "map_of (wsPending s) k = Some p"
    by (auto simp: pending_get_Some)
  then have mem: "(k, p) \<in> set (wsPending s)" by (simp add: map_of_SomeD)
  from pending_unsettled [OF inv mem] have u: "p_call p < length (calls s)" "c_settles (calls s ! p_call p) = []"
    by simp_all
  from inv have "entry_ok s (k, p)" using mem inv_core_entry by (simp add: inv_def)
  then have t: "p_timer p < length (timers s)" by (simp add: entry_ok_def)
  show "c_settles (calls (step s (SockMessage i (Some msg))) ! p_call p) =
     [if truthy (js_get msg ''ok'') then (ViaSuccess, Resolved (js_get msg ''result''))
      else (ViaFailure, Rejected (failure_error msg))]"
    using assms(2,3,4) u
    by (simp add: on_message_def response_frame_def Let_def pending_resolve_def pending_reject_def
        calls_settle_same)
  show "wsPending (step s (SockMessage i (Some msg))) = pending_delete (js_get msg ''id'') (wsPending s)"
    using assms(2,3,4)
    by (simp add: on_message_def response_frame_def Let_def pending_resolve_def pending_reject_def)
  show "\<not> t_active (timers (step s (SockMessage i (Some msg))) ! p_timer p)"
    using assms(2,3,4) t
    by (simp add: on_message_def response_frame_def Let_def pending_resolve_def pending_reject_def
        timers_clearTimeout_same)
qed

lemma non_empty_truthy: "non_empty v = truthy v"
  by (cases v) simp_all

lemma failure_error_reference: "failure_error msg = reference_error msg"
  by (simp add: failure_error_def reference_error_def new_Error_def js_or_def Let_def non_empty_truthy)

text \<open>
  C10. For a frame delivered in a reachable state that matches a table entry and whose
  \<^verbatim>\<open>ok\<close> is falsy, the promise of the call is rejected, once, with the error of the
  reference definition \<open>reference_error\<close>.
\<close>

theorem failure_rejection_is_reference:
  assumes "s = run (init_state protocol host meta item) es"
    and "sock_state s i = Some OPEN" and "response_frame msg"
    and "pending_get (wsPending s) (js_get msg ''id'') = Some p"
    and "\<not> truthy (js_get msg ''ok'')"
  shows "c_settles (calls (step s (SockMessage i (Some msg))) ! p_call p) =
     [(ViaFailure, Rejected (reference_error msg))]"
  using response_delivered(1) [OF assms(1-4)] assms(5)
  by (simp add: failure_error_reference)

theorem failure_rejection_is_reference_witness:
  "sock_state (run page two_pending_trace) 0 = Some OPEN \<and> response_frame rate_limit_frame \<and>
   pending_get (wsPending (run page two_pending_trace)) (js_get rate_limit_frame ''id'') =
     Some \<lparr> p_call = 0, p_timer = 0 \<rparr> \<and>
   \<not> truthy (js_get rate_limit_frame ''ok'') \<and>
   c_settles (calls (step (run page two_pending_trace) (SockMessage 0 (Some rate_limit_frame))) ! 0) =
     [(ViaFailure, Rejected \<lparr> err_message = ''Rate limit exceeded'', err_code = JNum 429,
        err_limit = JNum 10, err_current = JNum 10, err_attempted = JNum 1 \<rparr>)]"
proof -
  have a: "sock_state (run page two_pending_trace) 0 = Some OPEN"
    by (simp add: two_pending_state sock_state_def)
  have b: "response_frame rate_limit_frame"
    by (simp add: response_frame_def rate_limit_frame_def)
  have c: "pending_get (wsPending (run page two_pending_trace)) (js_get rate_limit_frame ''id'') =
     Some \<lparr> p_call = 0, p_timer = 0 \<rparr>"
    by (simp add: two_pending_state rate_limit_frame_def pending_get_def)
  have d: "\<not> truthy (js_get rate_limit_frame ''ok'')"
    by (simp add: rate_limit_frame_def)
  have e: "reference_error rate_limit_frame = \<lparr> err_message = ''Rate limit exceeded'', err_code = JNum 429,
        err_limit = JNum 10, err_current = JNum 10, err_attempted = JNum 1 \<rparr>"
    by (simp add: reference_error_def rate_limit_frame_def)
  from failure_rejection_is_reference [OF _ a b c d, of "''https:''" "''example.org''" "Some ''fresh''" "StorageItem (Some ''cached'')" two_pending_trace]
  show ?thesis using a b c d e by (simp add: page_def)
qed

text \<open>
  C7, as stated, fails: the listener replaces an empty message by \<^verbatim>\<open>Request failed\<close>
  and a code 0 by 500, and it drops \<^verbatim>\<open>current\<close> and \<^verbatim>\<open>attempted\<close> when the frame
  has no \<^verbatim>\<open>limit\<close>.
\<close>

theorem failure_fields_verbatim_counterexample:
  "sock_state (run page two_pending_trace) 0 = Some OPEN \<and>
   pending_get (wsPending (run page two_pending_trace)) (js_get bare_failure_frame ''id'') =
     Some \<lparr> p_call = 0, p_timer = 0 \<rparr> \<and>
   js_get bare_failure_frame ''error'' = JStr [] \<and>
   js_get bare_failure_frame ''code'' = JNum 0 \<and>
   js_get bare_failure_frame ''current'' = JNum 10 \<and>
   js_get bare_failure_frame ''attempted'' = JNum 1 \<and>
   c_settles (calls (step (run page two_pending_trace) (SockMessage 0 (Some bare_failure_frame))) ! 0) =
     [(ViaFailure, Rejected \<lparr> err_message = ''Request failed'', err_code = JNum 500,
        err_limit = JUndefined, err_current = JUndefined, err_attempted = JUndefined \<rparr>)]"
  unfolding two_pending_state
  by (simp add: bare_failure_frame_def eval_more)

text \<open>
  C7, amended. For a failure frame matching a table entry, the rejection carries the
  frame's message when it is a non-empty string, the frame's code when it is truthy, and
  the frame's limit, current and attempted when the frame has a limit.
\<close>

theorem failure_fields_forwarded:
  assumes "s = run (init_state protocol host meta item) es"
    and "sock_state s i = Some OPEN" and "response_frame msg"
    and "pending_get (wsPending s) (js_get msg ''id'') = Some p"
    and "\<not> truthy (js_get msg ''ok'')"
  shows "\<exists>err. c_settles (calls (step s (SockMessage i (Some msg))) ! p_call p) =
           [(ViaFailure, Rejected err)] \<and>
     (\<forall>text. js_get msg ''error'' = JStr text \<and> text \<noteq> [] \<longrightarrow> err_message err = text) \<and>
     (truthy (js_get msg ''code'') \<longrightarrow> err_code err = js_get msg ''code'') \<and>
     (js_get msg ''limit'' \<noteq> JUndefined \<longrightarrow>
        err_limit err = js_get msg ''limit'' \<and> err_current err = js_get msg ''current'' \<and>
        err_attempted err = js_get msg ''attempted'')"
proof (intro exI conjI)
  show "c_settles (calls (step s (SockMessage i (Some msg))) ! p_call p) =
      [(ViaFailure, Rejected (failure_error msg))]"
    using response_delivered(1) [OF assms(1-4)] assms(5) by simp
  show "\<forall>text. js_get msg ''error'' = JStr text \<and> text \<noteq> [] \<longrightarrow>
      err_message (failure_error msg) = text"
    by (simp add: failure_error_def new_Error_def js_or_def Let_def)
  show "truthy (js_get msg ''code'') \<longrightarrow> err_code (failure_error msg) = js_get msg ''code''"
    by (simp add: failure_error_def new_Error_def js_or_def Let_def)
  show "js_get msg ''limit'' \<noteq> JUndefined \<longrightarrow>
        err_limit (failure_error msg) = js_get msg ''limit'' \<and>
        err_current (failure_error msg) = js_get msg ''current'' \<and>
        err_attempted (failure_error msg) = js_get msg ''attempted''"
    by (simp add: failure_error_def new_Error_def js_or_def Let_def)
qed

theorem failure_fields_forwarded_witness:
  "sock_state (run page two_pending_trace) 0 = Some OPEN \<and> response_frame rate_limit_frame \<and>
   pending_get (wsPending (run page two_pending_trace)) (js_get rate_limit_frame ''id'') =
     Some \<lparr> p_call = 0, p_timer = 0 \<rparr> \<and>
   \<not> truthy (js_get rate_limit_frame ''ok'') \<and>
   js_get rate_limit_frame ''error'' = JStr ''Rate limit exceeded'' \<and>
   truthy (js_get rate_limit_frame ''code'') \<and>
   js_get rate_limit_frame ''limit'' \<noteq> JUndefined \<and>
   (\<exists>err. c_settles (calls (step (run page two_pending_trace) (SockMessage 0 (Some rate_limit_frame))) ! 0) =
       [(ViaFailure, Rejected err)] \<and>
     err_message err = ''Rate limit exceeded'' \<and> err_code err = JNum 429 \<and>
     err_limit err = JNum 10 \<and> err_current err = JNum 10 \<and> err_attempted err = JNum 1)"
proof -
  have a: "sock_state (run page two_pending_trace) 0 = Some OPEN"
    by (simp add: two_pending_state sock_state_def)
  have b: "response_frame rate_limit_frame"
    by (simp add: response_frame_def rate_limit_frame_def)
  have c: "pending_get (wsPending (run page two_pending_trace)) (js_get rate_limit_frame ''id'') =
     Some \<lparr> p_call = 0, p_timer = 0 \<rparr>"
    by (simp add: two_pending_state rate_limit_frame_def pending_get_def)
  have d: "\<not> truthy (js_get rate_limit_frame ''ok'')"
    by (simp add: rate_limit_frame_def)
  have e: "js_get rate_limit_frame ''error'' = JStr ''Rate limit exceeded''"
    "js_get rate_limit_frame ''code'' = JNum 429" "js_get rate_limit_frame ''limit'' = JNum 10"
    "js_get rate_limit_frame ''current'' = JNum 10" "js_get rate_limit_frame ''attempted'' = JNum 1"
    by (simp_all add: rate_limit_frame_def)
  from failure_fields_forwarded [OF _ a b c d, of "''https:''" "''example.org''" "Some ''fresh''" "StorageItem (Some ''cached'')" two_pending_trace]
  obtain err where "c_settles (calls (step (run page two_pending_trace) (SockMessage 0 (Some rate_limit_frame))) ! 0) =
       [(ViaFailure, Rejected err)]" "err_message err = ''Rate limit exceeded''" "err_code err = JNum 429"
     "err_limit err = JNum 10" "err_current err = JNum 10" "err_attempted err = JNum 1"
    unfolding e by (auto simp: page_def)
  then show ?thesis using a b c d e by auto
qed

subsection \<open>Timeouts\<close>

lemma wsSend_calls:
  "calls (snd (wsSend a pl tm s)) = calls s @
     [\<lparr> c_action = a, c_payload = (if pl = JUndefined then JObj [] else pl),
        c_timeoutMs = (case tm of None \<Rightarrow> 30000 | Some ms \<Rightarrow> ms),
        c_settles = (if ws_open s then []
          else case open_socket s of
                 Inl x \<Rightarrow> [(ViaCatch, RejectedThrown x)]
               | Inr socket \<Rightarrow> []) \<rparr>]"
proof (cases "ws_open s")
  case True
  then show ?thesis by (simp add: wsSend_open ready_open)
next
  case False
  show ?thesis
  proof (cases "open_socket s")
    case (Inl x)
    with False show ?thesis by (simp add: wsSend_throws settle_def)
  next
    case (Inr k)
    with False show ?thesis by (simp add: wsSend_waits Let_def)
  qed
qed

lemma wsSend_fst [simp]: "fst (wsSend a pl tm s) = length (calls s)"
  by (simp add: wsSend_def Let_def split_def)

text \<open>
  C8. A call made without a timeout has the timeout 30000 ms, a call made with one has
  that one, and the call of \<^verbatim>\<open>generateImage\<close> is the action \<^verbatim>\<open>generate\<close> with
  120000 ms. When \<^verbatim>\<open>ready\<close> registers a call it sets a timer of the call's timeout. When
  a request timer comes due in a reachable state, its call is still unsettled and in the
  table; the callback removes the entry and rejects the promise with
  \<^verbatim>\<open>Request timed out after Ns\<close>, N the timeout in seconds, rounded.
\<close>

theorem request_timeouts:
  assumes "s = run (init_state protocol host meta item) es"
  shows "c_timeoutMs (calls (snd (wsSend action payload None s)) ! fst (wsSend action payload None s)) = 30000 \<and>
    c_timeoutMs (calls (snd (wsSend action payload (Some ms) s)) ! fst (wsSend action payload (Some ms) s)) = ms \<and>
    c_action (calls (snd (generateImage_send payload s)) ! fst (generateImage_send payload s)) = ''generate'' \<and>
    c_timeoutMs (calls (snd (generateImage_send payload s)) ! fst (generateImage_send payload s)) = 120000 \<and>
    (ws_open s \<longrightarrow>
       timers (ready c s) = timers s @
         [\<lparr> t_delay = c_timeoutMs (calls s ! c),
            t_kind = RequestTimer (req_id (wsReqId s + 1)) c (c_timeoutMs (calls s ! c)),
            t_active = True \<rparr>]) \<and>
    (t < length (timers s) \<and> t_active (timers s ! t) \<and> t_kind (timers s ! t) = RequestTimer k c' ms' \<longrightarrow>
       ms' = c_timeoutMs (calls s ! c') \<and> t_delay (timers s ! t) = c_timeoutMs (calls s ! c') \<and>
       k \<in> fst ` set (wsPending s) \<and> c_settles (calls s ! c') = [] \<and>
       k \<notin> fst ` set (wsPending (step s (TimerFire t))) \<and>
       c_settles (calls (step s (TimerFire t)) ! c') =
         [(ViaTimeout, Rejected (new_Error
            (''Request timed out after '' @ show_nat ((ms' + 500) div 1000) @ ''s'')))])"
proof (intro conjI impI)
  show "c_timeoutMs (calls (snd (wsSend action payload None s)) ! fst (wsSend action payload None s)) = 30000"
    by (simp add: wsSend_calls)
  show "c_timeoutMs (calls (snd (wsSend action payload (Some ms) s)) ! fst (wsSend action payload (Some ms) s)) = ms"
    by (simp add: wsSend_calls)
  show "c_action (calls (snd (generateImage_send payload s)) ! fst (generateImage_send payload s)) = ''generate''"
    by (simp add: generateImage_send_def wsSend_calls)
  show "c_timeoutMs (calls (snd (generateImage_send payload s)) ! fst (generateImage_send payload s)) = 120000"
    by (simp add: generateImage_send_def wsSend_calls GENERATION_TIMEOUT_MS_def)
next
  assume "ws_open s"
  then show "timers (ready c s) = timers s @
         [\<lparr> t_delay = c_timeoutMs (calls s ! c),
            t_kind = RequestTimer (req_id (wsReqId s + 1)) c (c_timeoutMs (calls s ! c)),
            t_active = True \<rparr>]"
    by (simp add: ready_open)
next
  assume a: "t < length (timers s) \<and> t_active (timers s ! t) \<and> t_kind (timers s ! t) = RequestTimer k c' ms'"
  from assms have inv: "inv s" by (simp add: inv_reachable)
  then have core: "inv_core s" by (simp add: inv_def)
  from a inv_core_timer [OF core, of t]
  have m: "map_of (wsPending s) k = Some \<lparr> p_call = c', p_timer = t \<rparr>"
    by (simp add: timer_ok_def)
  then have mem: "(k, \<lparr> p_call = c', p_timer = t \<rparr>) \<in> set (wsPending s)" by (rule map_of_SomeD)
  from inv_core_entry [OF core mem] a
  have e: "ms' = c_timeoutMs (calls s ! c')" "t_delay (timers s ! t) = c_timeoutMs (calls s ! c')"
    by (simp_all add: entry_ok_def)
  from pending_unsettled [OF inv mem] have u: "c' < length (calls s)" "c_settles (calls s ! c') = []"
    by simp_all
  have st: "step s (TimerFire t) = settle c' ViaTimeout (Rejected (timeout_error ms'))
          (clearTimeout t (s\<lparr> wsPending := pending_delete (JStr k) (wsPending s) \<rparr>))"
    using a by (simp add: clearTimeout_wsPending)
  show "ms' = c_timeoutMs (calls s ! c')" by (rule e(1))
  show "t_delay (timers s ! t) = c_timeoutMs (calls s ! c')" by (rule e(2))
  show "k \<in> fst ` set (wsPending s)" using mem by force
  show "c_settles (calls s ! c') = []" by (rule u(2))
  show "k \<notin> fst ` set (wsPending (step s (TimerFire t)))"
    unfolding st by (auto simp: pending_delete_JStr)
  show "c_settles (calls (step s (TimerFire t)) ! c') =
         [(ViaTimeout, Rejected (new_Error
            (''Request timed out after '' @ show_nat ((ms' + 500) div 1000) @ ''s'')))]"
    unfolding st using u by (simp add: calls_settle_same timeout_error_def round_seconds_def)
qed

theorem request_timeouts_witness:
  "ws_open (run page two_pending_trace) \<and>
   timers (run page two_pending_trace) ! 0 =
     \<lparr> t_delay = 30000, t_kind = RequestTimer ''r1'' 0 30000, t_active = True \<rparr> \<and>
   c_timeoutMs (calls (snd (generateImage_send (JObj []) (run page two_pending_trace))) ! 2) = 120000 \<and>
   t_delay (last (timers (snd (generateImage_send (JObj []) (run page two_pending_trace))))) = 120000 \<and>
   ''r1'' \<notin> fst ` set (wsPending (step (run page two_pending_trace) (TimerFire 0))) \<and>
   c_settles (calls (step (run page two_pending_trace) (TimerFire 0)) ! 0) =
     [(ViaTimeout, Rejected (new_Error ''Request timed out after 30s''))]"
proof -
  let ?s = "run page two_pending_trace"
  have a: "ws_open ?s" by (simp add: two_pending_state ws_open_def)
  have b: "0 < length (timers ?s) \<and> t_active (timers ?s ! 0) \<and>
      t_kind (timers ?s ! 0) = RequestTimer ''r1'' 0 30000"
    by (simp add: two_pending_state)
  have c: "timers ?s ! 0 = \<lparr> t_delay = 30000, t_kind = RequestTimer ''r1'' 0 30000, t_active = True \<rparr>"
    by (simp add: two_pending_state)
  have d: "show_nat ((30000 + 500) div 1000) = ''30''"
    by (simp add: show_nat.simps digit_char_def)
  have e: "length (calls ?s) = 2" by (simp add: two_pending_state)
  have f: "t_delay (last (timers (snd (generateImage_send (JObj []) ?s)))) = 120000"
    unfolding two_pending_state by (simp add: generateImage_send_def GENERATION_TIMEOUT_MS_def eval_more)
  have r: "?s = run (init_state ''https:'' ''example.org'' (Some ''fresh'') (StorageItem (Some ''cached''))) two_pending_trace"
    by (simp add: page_def)
  note th = request_timeouts [OF r, where payload = "JObj []" and t = 0 and k = "''r1''"
      and c' = 0 and ms' = 30000]
  from th have g: "c_timeoutMs (calls (snd (generateImage_send (JObj []) ?s)) !
      fst (generateImage_send (JObj []) ?s)) = 120000"
    by blast
  from th b have t1: "''r1'' \<notin> fst ` set (wsPending (step ?s (TimerFire 0)))"
    by blast
  from th b have t2: "c_settles (calls (step ?s (TimerFire 0)) ! 0) =
      [(ViaTimeout, Rejected (new_Error
         (''Request timed out after '' @ show_nat ((30000 + 500) div 1000) @ ''s'')))]"
    by blast
  have h: "fst (generateImage_send (JObj []) ?s) = 2"
    by (simp add: generateImage_send_def e)
  from g h have g': "c_timeoutMs (calls (snd (generateImage_send (JObj []) ?s)) ! 2) = 120000"
    by simp
  from t2 have t2': "c_settles (calls (step ?s (TimerFire 0)) ! 0) =
      [(ViaTimeout, Rejected (new_Error ''Request timed out after 30s''))]"
    unfolding d by simp
  from a c g' f t1 t2' show ?thesis by blast
qed

subsection \<open>At most one settlement\<close>










subsection \<open>Every unsettled call has a table entry or waits for a connection\<close>



lemma settle_keeps_settled:
  "c_settles (calls (settle c' v x s) ! c) = [] \<Longrightarrow> c_settles (calls s ! c) = []"
  by (cases "c = c'"; cases "c' < length (calls s)") (simp_all add: settle_def)





lemma inv_live_settle:
  assumes "inv_live s"
  shows "inv_live (settle c v x s)"
  unfolding inv_live_def
proof (intro allI impI)
  fix c' assume "c' < length (calls (settle c v x s))" "c_settles (calls (settle c v x s) ! c') = []"
  then have "c' < length (calls s)" "c_settles (calls s ! c') = []"
    by (auto dest: settle_keeps_settled)
  with assms show "c' \<in> set (pending_calls (settle c v x s)) \<or> c' \<in> set (waiting_calls (settle c v x s))"
    by (simp add: inv_live_def)
qed
















section \<open>Correlation ids\<close>

lemma wsReqId_ready: "wsReqId s \<le> wsReqId (ready c s)"
  by (cases "ws_open s") (simp_all add: ready_open ready_closed)

lemma wsReqId_fold_ready: "wsReqId s \<le> wsReqId (fold ready cs s)"
proof (induction cs arbitrary: s)
  case Nil
  show ?case by simp
next
  case (Cons c cs)
  from wsReqId_ready [of s c] Cons.IH [of "ready c s"] show ?case by simp
qed

lemma wsReqId_resolve_connect: "wsReqId s \<le> wsReqId (resolve_connect p s)"
  using wsReqId_fold_ready
    [of "s\<lparr> connects := (connects s)[p := PromiseFulfilled], thens := filter (\<lambda>(q, c). q \<noteq> p) (thens s) \<rparr>"]
  by (simp add: resolve_connect_def)

lemma wsReqId_on_message: "wsReqId s \<le> wsReqId (on_message p data s)"
  using wsReqId_resolve_connect [of "s\<lparr> wsToken := tok, sessionItem := it \<rparr>" for tok it]
  by (auto simp: on_message_def setItem_eq Let_def split: option.splits)

lemma wsReqId_wsSend: "wsReqId s \<le> wsReqId (snd (wsSend a pl tm s))"
proof -
  let ?s1 = "s\<lparr> calls := calls s @
                 [\<lparr> c_action = a, c_payload = (if pl = JUndefined then JObj [] else pl),
                    c_timeoutMs = (case tm of None \<Rightarrow> 30000 | Some ms \<Rightarrow> ms),
                    c_settles = [] \<rparr>] \<rparr>"
  have "wsReqId s \<le> wsReqId (ready (length (calls s)) ?s1)"
    using wsReqId_ready [of ?s1] by simp
  moreover have "wsReqId s \<le> wsReqId (then_ready_catch p c (snd (wsConnect ?s1)))" for p c
    using wsReqId_ready [of "snd (wsConnect ?s1)" c]
    by (cases "connects (snd (wsConnect ?s1)) ! p") (simp_all add: then_ready_catch_def)
  ultimately show ?thesis
    by (simp add: wsSend_def Let_def split_def)
qed

lemma wsReqId_on_timer: "wsReqId (on_timer k s) = wsReqId s"
  by (cases k) simp_all

lemma wsReqId_step: "wsReqId s \<le> wsReqId (step s e)"
  by (cases e) (simp_all add: wsReqId_wsSend wsReqId_on_message wsReqId_on_timer on_open_def)

text \<open>
  C6. In every reachable state the keys of the table are distinct, each is an id issued
  before (\<^verbatim>\<open>r\<close> followed by a counter value between 1 and the counter), and the id the
  next call takes is not in the table; the ids sent so far are r1, r2, ... up to the
  counter, all different; no event lowers the counter, and a close event or a call of
  \<^verbatim>\<open>wsConnect\<close> leaves it as it is; different counter values give different ids.
\<close>

theorem correlation_ids_unique:
  assumes "s = run (init_state protocol host meta item) es"
  shows "distinct (map fst (wsPending s)) \<and>
    fst ` set (wsPending s) \<subseteq> req_id ` {1..wsReqId s} \<and>
    req_id (wsReqId s + 1) \<notin> fst ` set (wsPending s) \<and>
    map (\<lambda>w. f_id (snd w)) (wire s) = map req_id [1..<Suc (wsReqId s)] \<and>
    distinct (map (\<lambda>w. f_id (snd w)) (wire s)) \<and>
    wsReqId s \<le> wsReqId (step s e) \<and>
    wsReqId (step s (SockClose i)) = wsReqId s \<and>
    wsReqId (step s CallConnect) = wsReqId s \<and>
    (req_id m = req_id n \<longleftrightarrow> m = n) \<and>
    req_id n = CHR ''r'' # show_nat n"
proof -
  from assms have "inv s" by (simp add: inv_reachable)
  then have core: "inv_core s" by (simp add: inv_def)
  have keys: "fst ` set (wsPending s) \<subseteq> req_id ` {1..wsReqId s}"
  proof
    fix k assume "k \<in> fst ` set (wsPending s)"
    then obtain kp where "kp \<in> set (wsPending s)" "k = fst kp" by auto
    with inv_core_entry [OF core, of kp] show "k \<in> req_id ` {1..wsReqId s}"
      by (simp add: entry_ok_def)
  qed
  have w: "map (\<lambda>w. f_id (snd w)) (wire s) = map req_id [1..<Suc (wsReqId s)]"
    by (rule inv_core_wire [OF core])
  have "inj_on req_id (set [1..<Suc (wsReqId s)])"
    by (rule inj_onI) (simp add: req_id_inj)
  then have dw: "distinct (map (\<lambda>w. f_id (snd w)) (wire s))"
    unfolding w by (simp add: distinct_map del: upt_Suc)
  have cl: "wsReqId (step s (SockClose i)) = wsReqId s" by simp
  have cc: "wsReqId (step s CallConnect) = wsReqId s" by simp
  have rd: "req_id n = CHR ''r'' # show_nat n" by (simp add: req_id_def)
  show ?thesis
    using inv_core_keys [OF core] keys keys_below [OF core] w dw wsReqId_step [of s e] cl cc
      req_id_inj [of m n] rd
    by blast
qed

theorem correlation_ids_unique_witness:
  "map fst (wsPending (run page two_pending_trace)) = [''r1'', ''r2''] \<and>
   map (\<lambda>w. f_id (snd w)) (wire (run page two_pending_trace)) = [''r1'', ''r2''] \<and>
   wsReqId (run page two_pending_trace) = 2 \<and>
   distinct (map fst (wsPending (run page two_pending_trace))) \<and>
   req_id (2 + 1) \<notin> fst ` set (wsPending (run page two_pending_trace)) \<and>
   wsReqId (step (run page two_pending_trace) (SockClose 0)) = 2"
proof -
  let ?s = "run page two_pending_trace"
  have r: "?s = run (init_state ''https:'' ''example.org'' (Some ''fresh'') (StorageItem (Some ''cached''))) two_pending_trace"
    by (simp add: page_def)
  note th = correlation_ids_unique [OF r, where i = 0]
  have n: "wsReqId ?s = 2" by (simp add: two_pending_state)
  from th have a: "distinct (map fst (wsPending ?s))" by blast
  from th have b: "req_id (wsReqId ?s + 1) \<notin> fst ` set (wsPending ?s)" by blast
  from th have c: "wsReqId (step ?s (SockClose 0)) = wsReqId ?s" by blast
  have d: "map fst (wsPending ?s) = [''r1'', ''r2'']"
    "map (\<lambda>w. f_id (snd w)) (wire ?s) = [''r1'', ''r2'']"
    by (simp_all add: two_pending_state)
  from a b c d show ?thesis unfolding n by blast
qed

section \<open>Connecting\<close>

subsection \<open>Tokens\<close>

lemma step_page:
  "locProtocol (step s e) = locProtocol s" "locHost (step s e) = locHost s"
  "metaContent (step s e) = metaContent s"
  by (cases e; simp add: on_open_def)+

lemma step_wsToken:
  "wsToken (step s e) = (case auth_push s e of Some tok \<Rightarrow> tok | None \<Rightarrow> wsToken s)"
proof (cases e)
  case (SockMessage i data)
  then show ?thesis
    by (cases data) (simp_all add: on_message_def setItem_eq Let_def split: option.splits)
qed (simp_all add: on_open_def)

lemma run_page:
  "locProtocol (run s es) = locProtocol s" "locHost (run s es) = locHost s"
  "metaContent (run s es) = metaContent s"
  unfolding run_def by (induction es arbitrary: s; simp add: step_page)+

lemma run_wsToken: "wsToken (run s es) = last (wsToken s # pushes s es)"
  unfolding run_def
proof (induction es arbitrary: s)
  case Nil
  show ?case by simp
next
  case (Cons e es)
  show ?case
    by (cases "auth_push s e") (simp_all add: Cons.IH step_wsToken)
qed

lemma ws_url_pushed:
  "truthy (wsToken s) \<Longrightarrow>
   ws_url s = Inr (ws_base (locProtocol s) (locHost s) @ ''?token='' @ js_String (wsToken s))"
  by (simp add: ws_url_def ws_base_def)

lemma ws_url_meta:
  "\<not> truthy (wsToken s) \<Longrightarrow> metaContent s = Some fresh \<Longrightarrow> fresh \<noteq> [] \<Longrightarrow>
   ws_url s = Inr (ws_base (locProtocol s) (locHost s) @ ''?token='' @ fresh)"
  by (simp add: ws_url_def ws_base_def getInitialToken_def)

lemma open_socket_url:
  "ws_url s = Inr u \<Longrightarrow> CHR ''#'' \<notin> set u \<Longrightarrow>
   open_socket s = Inr \<lparr> sk_url = u, sk_readyState = CONNECTING, sk_resolve = length (connects s) \<rparr>"
  by (simp add: open_socket_def new_WebSocket_def)

lemma ws_url_clearTimeout [simp]: "ws_url (clearTimeout t s) = ws_url s"
  by (rule ws_url_cong) simp_all

lemma open_socket_clearTimeout [simp]: "open_socket (clearTimeout t s) = open_socket s"
  by (rule open_socket_cong) simp_all

lemma ws_open_clearTimeout [simp]: "ws_open (clearTimeout t s) = ws_open s"
  by (rule ws_open_cong) simp_all

text \<open>
  C5, as stated, fails. After a push of the token \<^verbatim>\<open>abc\<close> and a second push whose token
  is the empty string, \<^verbatim>\<open>_wsToken\<close> is the empty string, and the reconnect after the
  close takes the token of the meta tag, not the one pushed.
\<close>

theorem pushed_token_counterexample:
  "pushes page empty_push_trace = [JStr ''abc'', JStr []] \<and>
   wsToken (run page empty_push_trace) = JStr [] \<and>
   \<not> ws_open (run page empty_push_trace) \<and>
   ws_url (run page empty_push_trace) = Inr ''wss://example.org/ws?token=fresh'' \<and>
   t_kind (timers (run page empty_push_trace) ! 0) = Reconnect \<and>
   map sk_url (sockets (step (run page empty_push_trace) (TimerFire 0))) =
     [''wss://example.org/ws?token=fresh'', ''wss://example.org/ws?token=fresh'']"
  by (simp add: empty_push_trace_def eval_more)

text \<open>
  C5, amended. In a reachable state, the URL that \<^verbatim>\<open>wsConnect\<close> builds carries: the
  content of the meta tag, whatever the session storage holds, while no authentication
  push has been delivered and the meta tag has content; the token of the last push, once
  pushes have been delivered and the last one carried a truthy token; and the content of
  the meta tag again when the last push carried a token that is not truthy, such as the
  empty string. When \<^verbatim>\<open>_ws\<close> is not open and the URL has no number sign, that URL is the
  one of the socket that \<^verbatim>\<open>wsConnect\<close> opens, also when the reconnect timer calls it.
\<close>

theorem token_precedence:
  assumes "s = run (init_state protocol host meta item) es"
  shows "(pushes (init_state protocol host meta item) es = [] \<and> meta = Some fresh \<and> fresh \<noteq> [] \<longrightarrow>
       ws_url s = Inr (ws_base protocol host @ ''?token='' @ fresh)) \<and>
    (pushes (init_state protocol host meta item) es \<noteq> [] \<and>
     truthy (last (pushes (init_state protocol host meta item) es)) \<longrightarrow>
       ws_url s = Inr (ws_base protocol host @ ''?token='' @
         js_String (last (pushes (init_state protocol host meta item) es)))) \<and>
    (pushes (init_state protocol host meta item) es \<noteq> [] \<and>
     \<not> truthy (last (pushes (init_state protocol host meta item) es)) \<and>
     meta = Some fresh \<and> fresh \<noteq> [] \<longrightarrow>
       ws_url s = Inr (ws_base protocol host @ ''?token='' @ fresh)) \<and>
    (\<not> ws_open s \<and> ws_url s = Inr u \<and> CHR ''#'' \<notin> set u \<longrightarrow>
       sockets (snd (wsConnect s)) =
         sockets s @ [\<lparr> sk_url = u, sk_readyState = CONNECTING, sk_resolve = length (connects s) \<rparr>] \<and>
       (t < length (timers s) \<and> t_active (timers s ! t) \<and> t_kind (timers s ! t) = Reconnect \<longrightarrow>
          sockets (step s (TimerFire t)) =
            sockets s @ [\<lparr> sk_url = u, sk_readyState = CONNECTING, sk_resolve = length (connects s) \<rparr>]))"
proof -
  let ?i = "init_state protocol host meta item"
  have env: "locProtocol s = protocol" "locHost s = host" "metaContent s = meta"
    unfolding assms(1) by (simp_all add: run_page init_state_def)
  have tok: "wsToken s = last (JNull # pushes ?i es)"
    unfolding assms(1) by (simp add: run_wsToken init_state_def)
  show ?thesis
  proof (intro conjI impI)
    assume a: "pushes ?i es = [] \<and> meta = Some fresh \<and> fresh \<noteq> []"
    then have p: "pushes ?i es = []" and m: "meta = Some fresh" and f: "fresh \<noteq> []"
      by blast+
    from tok p have "\<not> truthy (wsToken s)" by simp
    from ws_url_meta [OF this, of fresh] env m f
    show "ws_url s = Inr (ws_base protocol host @ ''?token='' @ fresh)" by simp
  next
    assume a: "pushes ?i es \<noteq> [] \<and> truthy (last (pushes ?i es))"
    then have p: "pushes ?i es \<noteq> []" and t: "truthy (last (pushes ?i es))"
      by blast+
    from tok p have w: "wsToken s = last (pushes ?i es)" by simp
    with t have "truthy (wsToken s)" by simp
    from ws_url_pushed [OF this] env w
    show "ws_url s = Inr (ws_base protocol host @ ''?token='' @ js_String (last (pushes ?i es)))"
      by simp
  next
    assume a: "pushes ?i es \<noteq> [] \<and> \<not> truthy (last (pushes ?i es)) \<and> meta = Some fresh \<and> fresh \<noteq> []"
    then have p: "pushes ?i es \<noteq> []" and t: "\<not> truthy (last (pushes ?i es))"
      and m: "meta = Some fresh" and f: "fresh \<noteq> []"
      by blast+
    from tok p t have "\<not> truthy (wsToken s)" by simp
    from ws_url_meta [OF this, of fresh] env m f
    show "ws_url s = Inr (ws_base protocol host @ ''?token='' @ fresh)" by simp
  next
    assume a: "\<not> ws_open s \<and> ws_url s = Inr u \<and> CHR ''#'' \<notin> set u"
    then have o: "open_socket s =
        Inr \<lparr> sk_url = u, sk_readyState = CONNECTING, sk_resolve = length (connects s) \<rparr>"
      by (simp add: open_socket_url)
    with a show "sockets (snd (wsConnect s)) =
        sockets s @ [\<lparr> sk_url = u, sk_readyState = CONNECTING, sk_resolve = length (connects s) \<rparr>]"
      by (simp add: wsConnect_sockets)
    assume "t < length (timers s) \<and> t_active (timers s ! t) \<and> t_kind (timers s ! t) = Reconnect"
    with a o show "sockets (step s (TimerFire t)) =
        sockets s @ [\<lparr> sk_url = u, sk_readyState = CONNECTING, sk_resolve = length (connects s) \<rparr>]"
      by (simp add: wsConnect_sockets)
  qed
qed

theorem token_precedence_witness:
  "pushes page [] = [] \<and>
   metaContent page = Some ''fresh'' \<and> sessionItem page = StorageItem (Some ''cached'') \<and>
   ws_url page = Inr ''wss://example.org/ws?token=fresh'' \<and>
   \<not> ws_open (run page reconnect_after_push_trace) \<and>
   pushes page reconnect_after_push_trace = [JStr ''abc''] \<and>
   ws_url (run page reconnect_after_push_trace) = Inr ''wss://example.org/ws?token=abc'' \<and>
   t_kind (timers (run page reconnect_after_push_trace) ! 0) = Reconnect \<and>
   map sk_url (sockets (step (run page reconnect_after_push_trace) (TimerFire 0))) =
     [''wss://example.org/ws?token=fresh'', ''wss://example.org/ws?token=abc''] \<and>
   pushes page empty_push_trace = [JStr ''abc'', JStr []] \<and>
   ws_url (run page empty_push_trace) = Inr ''wss://example.org/ws?token=fresh''"
proof -
  let ?s = "run page reconnect_after_push_trace"
  let ?e = "run page empty_push_trace"
  let ?u = "''wss://example.org/ws?token=abc''"
  have r0: "page = run (init_state ''https:'' ''example.org'' (Some ''fresh'') (StorageItem (Some ''cached''))) []"
    by (simp add: page_def run_def)
  have r1: "?s = run (init_state ''https:'' ''example.org'' (Some ''fresh'') (StorageItem (Some ''cached''))) reconnect_after_push_trace"
    by (simp add: page_def)
  have r2: "?e = run (init_state ''https:'' ''example.org'' (Some ''fresh'') (StorageItem (Some ''cached''))) empty_push_trace"
    by (simp add: page_def)
  have a1: "\<not> ws_open ?s" by (simp add: reconnect_after_push_trace_def eval_more)
  have p0: "pushes page [] = []" by simp
  have p1: "pushes page reconnect_after_push_trace = [JStr ''abc'']"
    by (simp add: reconnect_after_push_trace_def eval_more)
  have p2: "pushes page empty_push_trace = [JStr ''abc'', JStr []]"
    by (simp add: empty_push_trace_def eval_more)
  have m: "metaContent page = Some ''fresh''" "sessionItem page = StorageItem (Some ''cached'')"
    by (simp_all add: page_def init_state_def)
  have b: "ws_base ''https:'' ''example.org'' = ''wss://example.org/ws''"
    by (simp add: ws_base_def)
  have k: "sockets ?s = [\<lparr> sk_url = ''wss://example.org/ws?token=fresh'', sk_readyState = CLOSED, sk_resolve = 0 \<rparr>]"
    "length (connects ?s) = 1"
    "0 < length (timers ?s) \<and> t_active (timers ?s ! 0) \<and> t_kind (timers ?s ! 0) = Reconnect"
    by (simp_all add: reconnect_after_push_trace_def eval_more)
  from token_precedence [OF r0, where fresh = "''fresh''"] p0
  have u0: "ws_url page = Inr ''wss://example.org/ws?token=fresh''"
    unfolding page_def [symmetric] b by simp
  from token_precedence [OF r1] p1
  have u1: "ws_url ?s = Inr ?u"
    unfolding page_def [symmetric] b by simp
  from token_precedence [OF r2, where fresh = "''fresh''"] p2
  have u2: "ws_url ?e = Inr ''wss://example.org/ws?token=fresh''"
    unfolding page_def [symmetric] b by simp
  have h: "CHR ''#'' \<notin> set ?u" by simp
  from token_precedence [OF r1, where u = ?u and t = 0] a1 u1 h k(3)
  have "sockets (step ?s (TimerFire 0)) =
      sockets ?s @ [\<lparr> sk_url = ?u, sk_readyState = CONNECTING, sk_resolve = length (connects ?s) \<rparr>]"
    by blast
  then have u3: "map sk_url (sockets (step ?s (TimerFire 0))) =
      [''wss://example.org/ws?token=fresh'', ''wss://example.org/ws?token=abc'']"
    unfolding k(1) by simp
  from k(3) have k3: "t_kind (timers ?s ! 0) = Reconnect" by blast
  from a1 p0 p1 p2 m u0 u1 u2 u3 k3 show ?thesis by blast
qed

subsection \<open>Transports\<close>

text \<open>
  C1, as stated, fails. Two calls made while disconnected open two sockets, both
  connecting, each with a promise of its own; and a second \<^verbatim>\<open>wsConnect\<close> made after the
  socket has opened and before the push returns a resolved promise while the first is
  still pending.
\<close>

theorem connect_idempotent_counterexample:
  "map sk_readyState (sockets (run page two_sends_trace)) = [CONNECTING, CONNECTING] \<and>
   map sk_resolve (sockets (run page two_sends_trace)) = [0, 1] \<and>
   connects (run page two_sends_trace) = [PromisePending, PromisePending] \<and>
   thens (run page two_sends_trace) = [(0, 0), (1, 1)] \<and>
   ws (run page two_sends_trace) = Some 1 \<and>
   map sk_readyState (sockets (run page authenticating_trace)) = [OPEN] \<and>
   connects (run page authenticating_trace) = [PromisePending, PromiseFulfilled]"
  by (simp add: two_sends_trace_def authenticating_trace_def eval_more)

lemma wsSend_sockets: "sockets (snd (wsSend a pl tm s)) = sockets (snd (wsConnect s))"
proof (cases "ws_open s")
  case True
  then show ?thesis by (simp add: wsSend_open wsConnect_sockets)
next
  case False
  show ?thesis
  proof (cases "open_socket s")
    case (Inl x)
    with False show ?thesis by (simp add: wsSend_throws wsConnect_sockets)
  next
    case (Inr k)
    with False show ?thesis by (simp add: wsSend_waits Let_def wsConnect_sockets)
  qed
qed

lemma wsConnect_connects_nth:
  "p < length (connects s) \<Longrightarrow> connects (snd (wsConnect s)) ! p = connects s ! p"
  by (simp add: wsConnect_connects nth_append)

lemma connects_then_ready_catch [simp]: "connects (then_ready_catch p c s) = connects s"
  by (cases "connects s ! p") (simp_all add: then_ready_catch_def)

lemma wsSend_connects:
  "p < length (connects s) \<Longrightarrow> connects (snd (wsSend a pl tm s)) ! p = connects s ! p"
  by (simp add: wsSend_def Let_def split_def wsConnect_connects nth_append)

lemma connects_resolve_connect:
  "p < length (connects s) \<Longrightarrow>
   connects (resolve_connect q s) ! p =
     (if q = p \<and> connects s ! p = PromisePending then PromiseFulfilled else connects s ! p)"
  by (auto simp: resolve_connect_def nth_list_update)

lemma thens_resolve_connect:
  "pc \<in> set (thens s) \<Longrightarrow> fst pc \<noteq> q \<Longrightarrow> pc \<in> set (thens (resolve_connect q s))"
  by (auto simp: resolve_connect_def)

lemma wsSend_thens: "pc \<in> set (thens s) \<Longrightarrow> pc \<in> set (thens (snd (wsSend a pl tm s)))"
  by (simp add: wsSend_def Let_def split_def then_ready_catch_def split: promise.splits)

text \<open>
  The promise of an earlier invocation changes only from pending to resolved, and only
  by an authentication push on the socket of that invocation.
\<close>

lemma step_connects:
  assumes "p < length (connects s)"
  shows "connects (step s e) ! p =
     (if connects s ! p = PromisePending \<and> resolves s e p then PromiseFulfilled else connects s ! p)"
proof (cases e)
  case (SockMessage i data)
  show ?thesis
  proof (cases data)
    case None
    with SockMessage show ?thesis by (simp add: on_message_def)
  next
    case (Some msg)
    with SockMessage assms show ?thesis
      by (auto simp: on_message_def setItem_eq Let_def connects_resolve_connect
          pending_resolve_def pending_reject_def split: option.splits)
  qed
next
  case (TimerFire t)
  with assms show ?thesis
    by (cases "t_kind (timers s ! t)") (simp_all add: wsConnect_connects_nth)
qed (simp_all add: assms wsConnect_connects_nth wsSend_connects on_open_def)

lemma step_connects_length: "length (connects s) \<le> length (connects (step s e))"
proof (cases e)
  case (TimerFire t)
  then show ?thesis by (cases "t_kind (timers s ! t)") simp_all
qed (simp_all add: wsSend_def Let_def split_def on_open_def)

lemma step_thens:
  assumes "pc \<in> set (thens s)" "\<not> resolves s e (fst pc)"
  shows "pc \<in> set (thens (step s e))"
proof (cases e)
  case (SockMessage i data)
  show ?thesis
  proof (cases data)
    case None
    with SockMessage assms show ?thesis by (simp add: on_message_def)
  next
    case (Some msg)
    with SockMessage assms show ?thesis
      by (auto simp: on_message_def setItem_eq Let_def thens_resolve_connect pending_resolve_def
          pending_reject_def split: option.splits)
  qed
next
  case (TimerFire t)
  with assms show ?thesis
    by (cases "t_kind (timers s ! t)") simp_all
qed (simp_all add: assms wsSend_thens on_open_def)

lemma wsConnect_new_socket:
  "sockets (snd (wsConnect s)) = sockets s \<or>
   (\<exists>k. sockets (snd (wsConnect s)) = sockets s @ [k] \<and> sk_readyState k = CONNECTING \<and>
        sk_resolve k = length (connects s))"
  by (cases "open_socket s") (auto simp: wsConnect_sockets open_socket_Inr)

lemma step_sockets:
  "(\<exists>i r. i < length (sockets s) \<and> sk_readyState (sockets s ! i) \<noteq> CLOSED \<and>
       sockets (step s e) = (sockets s)[i := (sockets s ! i)\<lparr> sk_readyState := r \<rparr>]) \<or>
   sockets (step s e) = sockets s \<or>
   (\<exists>k. sockets (step s e) = sockets s @ [k] \<and> sk_readyState k = CONNECTING \<and>
        sk_resolve k = length (connects s))"
proof (cases e)
  case CallConnect
  with wsConnect_new_socket [of s] show ?thesis by auto
next
  case (CallSend a pl tm)
  with wsConnect_new_socket [of s] show ?thesis by (auto simp: wsSend_sockets)
next
  case (SockOpen i)
  then show ?thesis
    by (cases "sock_state s i = Some CONNECTING")
       (auto simp: sock_state_def on_open_def set_readyState_def split: if_splits)
next
  case (SockMessage i data)
  then show ?thesis by simp
next
  case (SockClosing i)
  then show ?thesis
    by (cases "sock_state s i = Some OPEN")
       (auto simp: sock_state_def set_readyState_def split: if_splits)
next
  case (SockError i)
  then show ?thesis by simp
next
  case (SockClose i)
  then show ?thesis
    by (cases "sock_state s i = None \<or> sock_state s i = Some CLOSED")
       (auto simp: sock_state_def set_readyState_def split: if_splits)
next
  case (TimerFire t)
  show ?thesis
  proof (cases "t < length (timers s) \<and> t_active (timers s ! t)")
    case False
    with TimerFire show ?thesis by auto
  next
    case True
    show ?thesis
    proof (cases "t_kind (timers s ! t)")
      case Reconnect
      with True TimerFire wsConnect_new_socket [of "clearTimeout t s"] show ?thesis by auto
    next
      case (RequestTimer k c ms)
      with True TimerFire show ?thesis by simp
    qed
  qed
qed

lemma socks_ok_step:
  assumes "socks_ok s"
  shows "socks_ok (step s e)"
proof -
  from assms have inv: "inv s" and d: "distinct (map sk_resolve (sockets s))"
    by (simp_all add: socks_ok_def)
  from inv have bound: "\<forall>p \<in> set (map sk_resolve (sockets s)). p < length (connects s)"
    by (simp add: inv_def inv_conn_def)
  from step_sockets [of s e] have "distinct (map sk_resolve (sockets (step s e)))"
  proof (elim disjE exE conjE)
    fix i r assume "sockets (step s e) = (sockets s)[i := (sockets s ! i)\<lparr> sk_readyState := r \<rparr>]"
    with d show ?thesis by (simp add: map_sk_resolve_update)
  next
    assume "sockets (step s e) = sockets s"
    with d show ?thesis by simp
  next
    fix k assume "sockets (step s e) = sockets s @ [k]" "sk_resolve k = length (connects s)"
    with d bound show ?thesis by auto
  qed
  with inv_step [OF inv, of e] show ?thesis by (simp add: socks_ok_def)
qed

lemma socks_ok_run: "socks_ok s \<Longrightarrow> socks_ok (run s es)"
  unfolding run_def by (induction es arbitrary: s) (simp_all add: socks_ok_step)

lemma socks_ok_reachable: "socks_ok (run (init_state protocol host meta item) es)"
proof (rule socks_ok_run)
  show "socks_ok (init_state protocol host meta item)"
    unfolding socks_ok_def using inv_init [of protocol host meta item]
    by (simp add: init_state_def)
qed

text \<open>Calls of \<^verbatim>\<open>wsConnect\<close> in a row, while the sockets are connecting.\<close>

lemma connect_again:
  assumes "\<not> ws_open s" "ws_url s = Inr u" "CHR ''#'' \<notin> set u"
  shows "\<not> ws_open (step s CallConnect)" "ws_url (step s CallConnect) = Inr u"
    "sockets (step s CallConnect) =
       sockets s @ [\<lparr> sk_url = u, sk_readyState = CONNECTING, sk_resolve = length (connects s) \<rparr>]"
proof -
  from assms(1) show "\<not> ws_open (step s CallConnect)" by (simp add: wsConnect_ws_open)
  have "ws_url (snd (wsConnect s)) = ws_url s" by (rule ws_url_cong) simp_all
  with assms(2) show "ws_url (step s CallConnect) = Inr u" by simp
  from assms show "sockets (step s CallConnect) =
       sockets s @ [\<lparr> sk_url = u, sk_readyState = CONNECTING, sk_resolve = length (connects s) \<rparr>]"
    by (simp add: wsConnect_sockets open_socket_url)
qed

lemma connect_repeatedly:
  assumes "\<not> ws_open s" "ws_url s = Inr u" "CHR ''#'' \<notin> set u"
  shows "\<exists>new. sockets (run s (replicate n CallConnect)) = sockets s @ new \<and> length new = n \<and>
     (\<forall>k \<in> set new. sk_readyState k = CONNECTING \<and> sk_url k = u)"
  using assms
proof (induction n arbitrary: s)
  case 0
  show ?case by (simp add: run_def)
next
  case (Suc n)
  let ?k = "\<lparr> sk_url = u, sk_readyState = CONNECTING, sk_resolve = length (connects s) \<rparr>"
  note again = connect_again [OF Suc.prems]
  from Suc.IH [OF again(1,2) Suc.prems(3)] obtain new
    where new: "sockets (run (step s CallConnect) (replicate n CallConnect)) =
        sockets (step s CallConnect) @ new" "length new = n"
      "\<forall>k \<in> set new. sk_readyState k = CONNECTING \<and> sk_url k = u"
    by blast
  have "run s (replicate (Suc n) CallConnect) = run (step s CallConnect) (replicate n CallConnect)"
    by (simp add: run_def)
  with new again(3) have "sockets (run s (replicate (Suc n) CallConnect)) = sockets s @ (?k # new) \<and>
      length (?k # new) = Suc n \<and> (\<forall>k \<in> set (?k # new). sk_readyState k = CONNECTING \<and> sk_url k = u)"
    by simp
  then show ?case by blast
qed

lemma run_append: "run s (es @ es') = run (run s es) es'"
  by (simp add: run_def)

text \<open>
  C1, amended. In a reachable state, \<^verbatim>\<open>wsConnect\<close> returns a promise of its own: it is
  the promise of no socket and of no waiting call, and the earlier promises and sockets
  stay as they are. \<^verbatim>\<open>wsSend\<close> opens a socket exactly when \<^verbatim>\<open>wsConnect\<close> would. While
  \<^verbatim>\<open>_ws\<close> is open the promise is resolved and no socket is opened. While \<^verbatim>\<open>_ws\<close> is
  null or not open: when the executor throws, the promise is rejected with the exception,
  no socket is opened and \<^verbatim>\<open>_ws\<close> is as before; otherwise a new connecting socket is
  opened for the promise, which is pending, and made \<^verbatim>\<open>_ws\<close>, so that n calls in a row
  open n connecting sockets, and no two sockets of the page share a promise.
\<close>

theorem wsConnect_opens_unless_open:
  assumes "s = run (init_state protocol host meta item) es"
  shows "fst (wsConnect s) = length (connects s) \<and>
    fst (wsConnect s) \<notin> sk_resolve ` set (sockets s) \<and>
    fst (wsConnect s) \<notin> fst ` set (thens s) \<and>
    take (length (connects s)) (connects (snd (wsConnect s))) = connects s \<and>
    take (length (sockets s)) (sockets (snd (wsConnect s))) = sockets s \<and>
    sockets (step s CallConnect) = sockets (snd (wsConnect s)) \<and>
    sockets (step s (CallSend action payload timeoutMs)) = sockets (snd (wsConnect s)) \<and>
    (ws_open s \<longrightarrow>
       connects (snd (wsConnect s)) ! fst (wsConnect s) = PromiseFulfilled \<and>
       sockets (snd (wsConnect s)) = sockets s \<and> ws (snd (wsConnect s)) = ws s) \<and>
    (\<not> ws_open s \<and> open_socket s = Inl x \<longrightarrow>
       connects (snd (wsConnect s)) ! fst (wsConnect s) = PromiseRejected x \<and>
       sockets (snd (wsConnect s)) = sockets s \<and> ws (snd (wsConnect s)) = ws s) \<and>
    (\<not> ws_open s \<and> open_socket s = Inr k \<longrightarrow>
       connects (snd (wsConnect s)) ! fst (wsConnect s) = PromisePending \<and>
       sockets (snd (wsConnect s)) = sockets s @ [k] \<and>
       sk_readyState k = CONNECTING \<and> sk_resolve k = fst (wsConnect s) \<and>
       ws (snd (wsConnect s)) = Some (length (sockets s)) \<and>
       (\<exists>new. sockets (run s (replicate n CallConnect)) = sockets s @ new \<and> length new = n \<and>
          (\<forall>j \<in> set new. sk_readyState j = CONNECTING) \<and>
          distinct (map sk_resolve (sockets s @ new))))"
proof -
  from assms have inv: "inv s" by (simp add: inv_reachable)
  then have conn: "inv_conn s" by (simp add: inv_def)
  have 1: "fst (wsConnect s) = length (connects s)" by simp
  have 2: "fst (wsConnect s) \<notin> sk_resolve ` set (sockets s)"
    using conn by (auto simp: inv_conn_def)
  have 3: "fst (wsConnect s) \<notin> fst ` set (thens s)"
    using conn by (auto simp: inv_conn_def)
  have 4: "take (length (connects s)) (connects (snd (wsConnect s))) = connects s"
    by (simp add: wsConnect_connects)
  have 5: "take (length (sockets s)) (sockets (snd (wsConnect s))) = sockets s"
    using wsConnect_new_socket [of s] by auto
  have 6: "sockets (step s CallConnect) = sockets (snd (wsConnect s))" by simp
  have 7: "sockets (step s (CallSend action payload timeoutMs)) = sockets (snd (wsConnect s))"
    by (simp add: wsSend_sockets)
  have 8: "connects (snd (wsConnect s)) ! fst (wsConnect s) = PromiseFulfilled \<and>
       sockets (snd (wsConnect s)) = sockets s \<and> ws (snd (wsConnect s)) = ws s"
    if "ws_open s"
    using that by (simp add: wsConnect_connects wsConnect_sockets wsConnect_ws)
  have 9: "connects (snd (wsConnect s)) ! fst (wsConnect s) = PromiseRejected x \<and>
       sockets (snd (wsConnect s)) = sockets s \<and> ws (snd (wsConnect s)) = ws s"
    if "\<not> ws_open s \<and> open_socket s = Inl x"
    using that by (simp add: wsConnect_connects wsConnect_sockets wsConnect_ws)
  have 10: "connects (snd (wsConnect s)) ! fst (wsConnect s) = PromisePending \<and>
       sockets (snd (wsConnect s)) = sockets s @ [k] \<and>
       sk_readyState k = CONNECTING \<and> sk_resolve k = fst (wsConnect s) \<and>
       ws (snd (wsConnect s)) = Some (length (sockets s)) \<and>
       (\<exists>new. sockets (run s (replicate n CallConnect)) = sockets s @ new \<and> length new = n \<and>
          (\<forall>j \<in> set new. sk_readyState j = CONNECTING) \<and>
          distinct (map sk_resolve (sockets s @ new)))"
    if a: "\<not> ws_open s \<and> open_socket s = Inr k"
  proof -
    from a have closed: "\<not> ws_open s" and k: "open_socket s = Inr k" by blast+
    note kk = open_socket_Inr [OF k]
    from connect_repeatedly [OF closed kk(3,4), of n] obtain new
      where new: "sockets (run s (replicate n CallConnect)) = sockets s @ new" "length new = n"
        "\<forall>j \<in> set new. sk_readyState j = CONNECTING \<and> sk_url j = sk_url k"
      by blast
    have "socks_ok (run s (replicate n CallConnect))"
      unfolding assms run_append [symmetric] by (rule socks_ok_reachable)
    with new(1) have "distinct (map sk_resolve (sockets s @ new))"
      by (simp add: socks_ok_def)
    with new have "\<exists>new. sockets (run s (replicate n CallConnect)) = sockets s @ new \<and> length new = n \<and>
          (\<forall>j \<in> set new. sk_readyState j = CONNECTING) \<and>
          distinct (map sk_resolve (sockets s @ new))"
      by blast
    with closed k kk show ?thesis
      by (simp add: wsConnect_connects wsConnect_sockets wsConnect_ws)
  qed
  from 1 2 3 4 5 6 7 8 9 10 show ?thesis by blast
qed

theorem wsConnect_opens_unless_open_witness:
  "ws_open (run page two_pending_trace) \<and>
   length (sockets (step (run page two_pending_trace) CallConnect)) = 1 \<and>
   connects (snd (wsConnect (run page two_pending_trace))) ! 1 = PromiseFulfilled \<and>
   \<not> ws_open fragment_page \<and> open_socket fragment_page = Inl SyntaxError \<and>
   connects (snd (wsConnect fragment_page)) ! 0 = PromiseRejected SyntaxError \<and>
   sockets (snd (wsConnect fragment_page)) = [] \<and> ws (snd (wsConnect fragment_page)) = None \<and>
   \<not> ws_open (run page [CallConnect]) \<and>
   map sk_readyState (sockets (step (run page [CallConnect]) CallConnect)) = [CONNECTING, CONNECTING] \<and>
   connects (snd (wsConnect (run page [CallConnect]))) ! 1 = PromisePending \<and>
   ws (snd (wsConnect (run page [CallConnect]))) = Some 1 \<and>
   length (sockets (run (run page [CallConnect]) (replicate 3 CallConnect))) = 4"
proof -
  let ?s = "run page two_pending_trace"
  let ?t = "run page [CallConnect]"
  let ?k = "\<lparr> sk_url = ''wss://example.org/ws?token=fresh'', sk_readyState = CONNECTING, sk_resolve = 1 \<rparr>"
  have rs: "?s = run (init_state ''https:'' ''example.org'' (Some ''fresh'') (StorageItem (Some ''cached''))) two_pending_trace"
    by (simp add: page_def)
  have rt: "?t = run (init_state ''https:'' ''example.org'' (Some ''fresh'') (StorageItem (Some ''cached''))) [CallConnect]"
    by (simp add: page_def)
  have rf: "fragment_page = run (init_state ''https:'' ''example.org'' (Some ''a#b'') (StorageItem None)) []"
    by (simp add: fragment_page_def run_def)
  have a: "ws_open ?s" by (simp add: two_pending_state ws_open_def)
  have b: "\<not> ws_open ?t" by (simp add: eval_more)
  have c: "length (sockets ?s) = 1" "length (connects ?s) = 1" by (simp_all add: two_pending_state)
  have d: "map sk_readyState (sockets ?t) = [CONNECTING]" "length (sockets ?t) = 1"
    "length (connects ?t) = 1" "open_socket ?t = Inr ?k"
    by (simp_all add: eval_more)
  have f: "\<not> ws_open fragment_page" "open_socket fragment_page = Inl SyntaxError"
    "sockets fragment_page = []" "ws fragment_page = None" "connects fragment_page = []"
    by (simp_all add: eval_more)
  note ths = wsConnect_opens_unless_open [OF rs]
  from ths a have s1: "sockets (step ?s CallConnect) = sockets ?s"
    "connects (snd (wsConnect ?s)) ! fst (wsConnect ?s) = PromiseFulfilled"
    by simp_all
  from ths have s2: "fst (wsConnect ?s) = length (connects ?s)" by blast
  note thf = wsConnect_opens_unless_open [OF rf, where x = SyntaxError]
  from thf f(1,2) have f1: "connects (snd (wsConnect fragment_page)) ! fst (wsConnect fragment_page) =
      PromiseRejected SyntaxError" "sockets (snd (wsConnect fragment_page)) = sockets fragment_page"
    "ws (snd (wsConnect fragment_page)) = ws fragment_page"
    by blast+
  from thf have f2: "fst (wsConnect fragment_page) = length (connects fragment_page)" by blast
  note tht = wsConnect_opens_unless_open [OF rt, where k = ?k and n = 3]
  from tht b d(4) have t1: "connects (snd (wsConnect ?t)) ! fst (wsConnect ?t) = PromisePending"
    "sockets (snd (wsConnect ?t)) = sockets ?t @ [?k]"
    "ws (snd (wsConnect ?t)) = Some (length (sockets ?t))"
    "\<exists>new. sockets (run ?t (replicate 3 CallConnect)) = sockets ?t @ new \<and> length new = 3 \<and>
          (\<forall>j \<in> set new. sk_readyState j = CONNECTING) \<and>
          distinct (map sk_resolve (sockets ?t @ new))"
    by blast+
  from tht have t2: "fst (wsConnect ?t) = length (connects ?t)"
    "sockets (step ?t CallConnect) = sockets (snd (wsConnect ?t))" by blast+
  from t1(4) d(2) have t3: "length (sockets (run ?t (replicate 3 CallConnect))) = 4" by auto
  from t1(2) t2(2) d(1) have t4: "map sk_readyState (sockets (step ?t CallConnect)) = [CONNECTING, CONNECTING]"
    by simp
  from a b s1 s2 c f f1 f2 t1(1,3) t2(1) d(2,3) t3 t4 show ?thesis by simp
qed

subsection \<open>The promise of wsConnect\<close>

text \<open>
  C9, as stated, fails. The promise of a \<^verbatim>\<open>wsConnect\<close> whose executor throws is rejected:
  the constructor refuses the URL of a token with a number sign, and a page that is denied
  storage cannot read its token. And a \<^verbatim>\<open>wsConnect\<close> made while \<^verbatim>\<open>_ws\<close> is open, after
  the socket has opened and before the push, returns a promise that is resolved though no
  authentication frame has arrived.
\<close>

theorem connect_promise_counterexample:
  "connects (run fragment_page [CallConnect]) = [PromiseRejected SyntaxError] \<and>
   sockets (run fragment_page [CallConnect]) = [] \<and>
   connects (run denied_page [CallConnect]) = [PromiseRejected SecurityError] \<and>
   sockets (run denied_page [CallConnect]) = [] \<and>
   pushes page authenticating_trace = [] \<and>
   connects (run page authenticating_trace) = [PromisePending, PromiseFulfilled]"
  by (simp add: authenticating_trace_def eval_more)

lemma dead_not_resolved:
  assumes ok: "socks_ok s" and dead: "dead s i p"
  shows "\<not> resolves s e p"
proof
  assume r: "resolves s e p"
  then obtain j msg where e: "e = SockMessage j (Some msg)"
    by (cases e; cases "case e of SockMessage j d \<Rightarrow> d | _ \<Rightarrow> None") auto
  with r have j: "sock_state s j = Some OPEN" "sk_resolve (sockets s ! j) = p" by simp_all
  then have jl: "j < length (sockets s)" and jo: "sk_readyState (sockets s ! j) = OPEN"
    by (auto simp: sock_state_def split: if_splits)
  from ok have d: "distinct (map sk_resolve (sockets s))" by (simp add: socks_ok_def)
  from dead have il: "i < length (sockets s)" and ip: "sk_resolve (sockets s ! i) = p"
    and ic: "sk_readyState (sockets s ! i) = CLOSED"
    by (simp_all add: dead_def)
  from d il jl ip j(2) have "i = j"
    by (auto simp: distinct_conv_nth)
  with ic jo show False by simp
qed

lemma dead_step:
  assumes ok: "socks_ok s" and dead: "dead s i p"
  shows "dead (step s e) i p"
proof -
  from dead have il: "i < length (sockets s)" and ic: "sk_readyState (sockets s ! i) = CLOSED"
    and ip: "sk_resolve (sockets s ! i) = p" and pl: "p < length (connects s)"
    and np: "connects s ! p = PromisePending"
    by (simp_all add: dead_def)
  have nr: "\<not> resolves s e p" by (rule dead_not_resolved [OF ok dead])
  from step_connects [OF pl, of e] np nr have c: "connects (step s e) ! p = PromisePending" by simp
  note len = step_connects_length [of s e]
  from step_sockets [of s e]
  have "i < length (sockets (step s e)) \<and> sk_readyState (sockets (step s e) ! i) = CLOSED \<and>
      sk_resolve (sockets (step s e) ! i) = p"
  proof (elim disjE exE conjE)
    fix j r assume "j < length (sockets s)" "sk_readyState (sockets s ! j) \<noteq> CLOSED"
      and "sockets (step s e) = (sockets s)[j := (sockets s ! j)\<lparr> sk_readyState := r \<rparr>]"
    with il ic ip show ?thesis by (cases "i = j") auto
  next
    assume "sockets (step s e) = sockets s"
    with il ic ip show ?thesis by simp
  next
    fix k assume "sockets (step s e) = sockets s @ [k]"
    with il ic ip show ?thesis by (simp add: nth_append)
  qed
  with c pl len show ?thesis by (simp add: dead_def)
qed

lemma dead_run:
  assumes "socks_ok s" "dead s i p"
  shows "dead (run s es) i p \<and> (\<forall>c. (p, c) \<in> set (thens s) \<longrightarrow> (p, c) \<in> set (thens (run s es)))"
  using assms unfolding run_def
proof (induction es arbitrary: s)
  case Nil
  then show ?case by simp
next
  case (Cons e es)
  note ok' = socks_ok_step [OF Cons.prems(1), of e]
  note dead' = dead_step [OF Cons.prems, of e]
  have "(p, c) \<in> set (thens (step s e))" if "(p, c) \<in> set (thens s)" for c
    using step_thens [OF that] dead_not_resolved [OF Cons.prems, of e] by simp
  with Cons.IH [OF ok' dead'] show ?case by simp
qed

lemma never_rejected:
  "p < length (connects s) \<Longrightarrow> connects s ! p \<noteq> PromiseRejected x \<Longrightarrow>
   connects (run s es) ! p \<noteq> PromiseRejected x"
  unfolding run_def
proof (induction es arbitrary: s)
  case Nil
  then show ?case by simp
next
  case (Cons e es)
  from Cons.prems step_connects [of p s e] have "connects (step s e) ! p \<noteq> PromiseRejected x"
    by (simp split: if_splits)
  moreover from Cons.prems(1) step_connects_length [of s e] have "p < length (connects (step s e))"
    by simp
  ultimately show ?case using Cons.IH [of "step s e"] by simp
qed

lemma wsSend_thens_waits:
  "\<not> ws_open s \<Longrightarrow> open_socket s = Inr k \<Longrightarrow>
   thens (snd (wsSend a pl tm s)) = thens s @ [(length (connects s), length (calls s))]"
  by (simp add: wsSend_waits Let_def)

lemma closed_before_auth_state:
  "run page closed_before_auth_trace =
     \<lparr> ws = None, wsToken = JNull, wsPending = [], wsReqId = 0, wsReconnectDelay = 1000,
       locProtocol = ''https:'', locHost = ''example.org'',
       metaContent = Some ''fresh'', sessionItem = StorageItem (Some ''cached''),
       sockets = [\<lparr> sk_url = ''wss://example.org/ws?token=fresh'', sk_readyState = CLOSED, sk_resolve = 0 \<rparr>],
       connects = [PromisePending], thens = [(0, 0)],
       calls = [\<lparr> c_action = ''providers'', c_payload = JObj [], c_timeoutMs = 30000, c_settles = [] \<rparr>],
       timers = [\<lparr> t_delay = 500, t_kind = Reconnect, t_active = True \<rparr>],
       wire = [] \<rparr>"
  by (simp add: closed_before_auth_trace_def eval_more)

text \<open>
  C9, amended. In a reachable state, the promise that \<^verbatim>\<open>wsConnect\<close> returns is
  resolved at once when \<^verbatim>\<open>_ws\<close> is open, rejected at once with the exception when the
  executor throws, and pending otherwise; only in the last case is a socket opened, and
  it is the socket of that promise. The promise of an earlier invocation changes only
  from pending to resolved, and only by an authentication push delivered on the socket of
  that invocation on a page whose storage is granted; so a promise that is pending is not
  rejected after any further events. No two sockets share a promise, and a \<^verbatim>\<open>wsSend\<close>
  made while \<^verbatim>\<open>_ws\<close> is not open chains its \<^verbatim>\<open>ready\<close> to the promise of the socket it
  opens. Once that socket is closed with the promise pending, the promise is pending
  after any further events, and a call chained to it stays chained and unsettled, with no
  table entry and no request timer set: nothing rejects it.
\<close>

theorem connect_promise_settlement:
  assumes "s = run (init_state protocol host meta item) es0"
  shows "connects (snd (wsConnect s)) ! fst (wsConnect s) =
      (if ws_open s then PromiseFulfilled
       else case open_socket s of Inl x \<Rightarrow> PromiseRejected x | Inr socket \<Rightarrow> PromisePending) \<and>
    ((ws_open s \<or> open_socket s = Inl x) \<longrightarrow> sockets (snd (wsConnect s)) = sockets s) \<and>
    (\<not> ws_open s \<and> open_socket s = Inr k \<longrightarrow>
       sockets (snd (wsConnect s)) = sockets s @ [k] \<and> sk_resolve k = fst (wsConnect s) \<and>
       thens (step s (CallSend action payload timeoutMs)) =
         thens s @ [(length (connects s), length (calls s))] \<and>
       sockets (step s (CallSend action payload timeoutMs)) = sockets s @ [k]) \<and>
    (p < length (connects s) \<longrightarrow>
       connects (step s e) ! p =
         (if connects s ! p = PromisePending \<and> resolves s e p then PromiseFulfilled
          else connects s ! p)) \<and>
    (p < length (connects s) \<and> connects s ! p = PromisePending \<longrightarrow>
       connects (run s es) ! p \<noteq> PromiseRejected x) \<and>
    distinct (map sk_resolve (sockets s)) \<and>
    (i < length (sockets s) \<and> sk_readyState (sockets s ! i) = CLOSED \<and>
     connects s ! sk_resolve (sockets s ! i) = PromisePending \<longrightarrow>
       connects (run s es) ! sk_resolve (sockets s ! i) = PromisePending \<and>
       (\<forall>c. (sk_resolve (sockets s ! i), c) \<in> set (thens s) \<longrightarrow>
          (sk_resolve (sockets s ! i), c) \<in> set (thens (run s es)) \<and>
          c_settles (calls (run s es) ! c) = [] \<and>
          c \<notin> set (pending_calls (run s es)) \<and>
          \<not> (\<exists>t k' ms. t < length (timers (run s es)) \<and> t_active (timers (run s es) ! t) \<and>
               t_kind (timers (run s es) ! t) = RequestTimer k' c ms)))"
proof (intro conjI impI)
  show "connects (snd (wsConnect s)) ! fst (wsConnect s) =
      (if ws_open s then PromiseFulfilled
       else case open_socket s of Inl x \<Rightarrow> PromiseRejected x | Inr socket \<Rightarrow> PromisePending)"
    by (simp add: wsConnect_connects)
next
  assume "ws_open s \<or> open_socket s = Inl x"
  then show "sockets (snd (wsConnect s)) = sockets s"
    by (auto simp: wsConnect_sockets)
next
  assume a: "\<not> ws_open s \<and> open_socket s = Inr k"
  then have closed: "\<not> ws_open s" and k: "open_socket s = Inr k" by blast+
  from closed k show s1: "sockets (snd (wsConnect s)) = sockets s @ [k]"
    by (simp add: wsConnect_sockets)
  show "sk_resolve k = fst (wsConnect s)"
    using open_socket_Inr(1) [OF k] by simp
  show "thens (step s (CallSend action payload timeoutMs)) =
         thens s @ [(length (connects s), length (calls s))]"
    using closed k by (simp add: wsSend_thens_waits)
  show "sockets (step s (CallSend action payload timeoutMs)) = sockets s @ [k]"
    using s1 by (simp add: wsSend_sockets)
next
  assume "p < length (connects s)"
  then show "connects (step s e) ! p =
         (if connects s ! p = PromisePending \<and> resolves s e p then PromiseFulfilled
          else connects s ! p)"
    by (rule step_connects)
next
  assume "p < length (connects s) \<and> connects s ! p = PromisePending"
  then show "connects (run s es) ! p \<noteq> PromiseRejected x"
    by (intro never_rejected) simp_all
next
  show "distinct (map sk_resolve (sockets s))"
    using socks_ok_reachable [of protocol host meta item es0] assms by (simp add: socks_ok_def)
next
  let ?p = "sk_resolve (sockets s ! i)"
  let ?s' = "run s es"
  assume a: "i < length (sockets s) \<and> sk_readyState (sockets s ! i) = CLOSED \<and>
      connects s ! ?p = PromisePending"
  have ok: "socks_ok s" unfolding assms by (rule socks_ok_reachable)
  then have "inv_conn s" by (simp add: socks_ok_def inv_def)
  with a have "?p < length (connects s)" by (simp add: inv_conn_def)
  with a have dead: "dead s i ?p" by (simp add: dead_def)
  note run = dead_run [OF ok dead, of es]
  from run show "connects ?s' ! ?p = PromisePending" by (simp add: dead_def)
  show "\<forall>c. (?p, c) \<in> set (thens s) \<longrightarrow>
          (?p, c) \<in> set (thens ?s') \<and> c_settles (calls ?s' ! c) = [] \<and>
          c \<notin> set (pending_calls ?s') \<and>
          \<not> (\<exists>t k' ms. t < length (timers ?s') \<and> t_active (timers ?s' ! t) \<and>
               t_kind (timers ?s' ! t) = RequestTimer k' c ms)"
  proof (intro allI impI)
    fix c assume "(?p, c) \<in> set (thens s)"
    with run have t: "(?p, c) \<in> set (thens ?s')" by simp
    then have w: "c \<in> set (waiting_calls ?s')" by (force simp: waiting_calls_def)
    from socks_ok_run [OF ok, of es] have core: "inv_core ?s'"
      by (simp add: socks_ok_def inv_def)
    from w have "c \<in> set (pending_calls ?s' @ waiting_calls ?s')" by simp
    from inv_core_unsettled [OF core this] have u: "c_settles (calls ?s' ! c) = []"
      by (simp add: unsettled_def)
    from inv_core_distinct [OF core] w have np: "c \<notin> set (pending_calls ?s')" by auto
    have nt: "\<not> (\<exists>t k' ms. t < length (timers ?s') \<and> t_active (timers ?s' ! t) \<and>
        t_kind (timers ?s' ! t) = RequestTimer k' c ms)"
    proof
      assume "\<exists>t k' ms. t < length (timers ?s') \<and> t_active (timers ?s' ! t) \<and>
        t_kind (timers ?s' ! t) = RequestTimer k' c ms"
      then obtain t k' ms where tl: "t < length (timers ?s')"
        and ta: "t_active (timers ?s' ! t)"
        and tk: "t_kind (timers ?s' ! t) = RequestTimer k' c ms"
        by blast
      from inv_core_timer [OF core tl] tk ta
      have "map_of (wsPending ?s') k' = Some \<lparr> p_call = c, p_timer = t \<rparr>"
        by (simp add: timer_ok_def)
      then have "(k', \<lparr> p_call = c, p_timer = t \<rparr>) \<in> set (wsPending ?s')" by (rule map_of_SomeD)
      then have "c \<in> set (pending_calls ?s')" by (force simp: pending_calls_def)
      with np show False by simp
    qed
    from t u np nt
    show "(?p, c) \<in> set (thens ?s') \<and> c_settles (calls ?s' ! c) = [] \<and>
          c \<notin> set (pending_calls ?s') \<and>
          \<not> (\<exists>t k' ms. t < length (timers ?s') \<and> t_active (timers ?s' ! t) \<and>
               t_kind (timers ?s' ! t) = RequestTimer k' c ms)"
      by blast
  qed
qed

theorem connect_promise_settlement_witness:
  "sk_readyState (sockets (run page closed_before_auth_trace) ! 0) = CLOSED \<and>
   sk_resolve (sockets (run page closed_before_auth_trace) ! 0) = 0 \<and>
   connects (run page closed_before_auth_trace) ! 0 = PromisePending \<and>
   (0, 0) \<in> set (thens (run page closed_before_auth_trace)) \<and>
   ws_open (run (run page closed_before_auth_trace) reconnected_trace) \<and>
   wsToken (run (run page closed_before_auth_trace) reconnected_trace) = JStr ''abc'' \<and>
   connects (run (run page closed_before_auth_trace) reconnected_trace) ! 0 = PromisePending \<and>
   connects (run (run page closed_before_auth_trace) reconnected_trace) ! 0 \<noteq> PromiseRejected SyntaxError \<and>
   c_settles (calls (run (run page closed_before_auth_trace) reconnected_trace) ! 0) = [] \<and>
   0 \<notin> set (pending_calls (run (run page closed_before_auth_trace) reconnected_trace)) \<and>
   \<not> ws_open fragment_page \<and> open_socket fragment_page = Inl SyntaxError \<and>
   sockets (snd (wsConnect fragment_page)) = [] \<and>
   connects (snd (wsConnect fragment_page)) ! 0 = PromiseRejected SyntaxError \<and>
   \<not> ws_open page \<and>
   open_socket page =
     Inr \<lparr> sk_url = ''wss://example.org/ws?token=fresh'', sk_readyState = CONNECTING, sk_resolve = 0 \<rparr> \<and>
   sockets (snd (wsConnect page)) =
     [\<lparr> sk_url = ''wss://example.org/ws?token=fresh'', sk_readyState = CONNECTING, sk_resolve = 0 \<rparr>] \<and>
   connects (snd (wsConnect page)) ! 0 = PromisePending \<and>
   thens (step page (CallSend ''providers'' JUndefined None)) = [(0, 0)] \<and>
   resolves (run page [CallConnect, SockOpen 0]) (SockMessage 0 (Some (auth_frame ''abc''))) 0 \<and>
   connects (run page [CallConnect, SockOpen 0]) ! 0 = PromisePending \<and>
   connects (step (run page [CallConnect, SockOpen 0]) (SockMessage 0 (Some (auth_frame ''abc'')))) ! 0 =
     PromiseFulfilled"
proof -
  let ?s = "run page closed_before_auth_trace"
  let ?o = "run page [CallConnect, SockOpen 0]"
  let ?e = "SockMessage 0 (Some (auth_frame ''abc''))"
  let ?k = "\<lparr> sk_url = ''wss://example.org/ws?token=fresh'', sk_readyState = CONNECTING, sk_resolve = 0 \<rparr>"
  have r: "?s = run (init_state ''https:'' ''example.org'' (Some ''fresh'') (StorageItem (Some ''cached''))) closed_before_auth_trace"
    by (simp add: page_def)
  have ro: "?o = run (init_state ''https:'' ''example.org'' (Some ''fresh'') (StorageItem (Some ''cached''))) [CallConnect, SockOpen 0]"
    by (simp add: page_def)
  have rp: "page = run (init_state ''https:'' ''example.org'' (Some ''fresh'') (StorageItem (Some ''cached''))) []"
    by (simp add: page_def run_def)
  have rf: "fragment_page = run (init_state ''https:'' ''example.org'' (Some ''a#b'') (StorageItem None)) []"
    by (simp add: fragment_page_def run_def)
  have a: "0 < length (sockets ?s) \<and> sk_readyState (sockets ?s ! 0) = CLOSED \<and>
      connects ?s ! sk_resolve (sockets ?s ! 0) = PromisePending"
    by (simp add: closed_before_auth_state)
  have a': "0 < length (connects ?s) \<and> connects ?s ! 0 = PromisePending"
    by (simp add: closed_before_auth_state)
  have b: "sk_resolve (sockets ?s ! 0) = 0" "(0, 0) \<in> set (thens ?s)"
    by (simp_all add: closed_before_auth_state)
  have c: "ws_open (run ?s reconnected_trace)" "wsToken (run ?s reconnected_trace) = JStr ''abc''"
    unfolding closed_before_auth_state by (simp_all add: reconnected_trace_def eval_more)
  note th = connect_promise_settlement [OF r, where i = 0 and es = reconnected_trace and p = 0
      and x = SyntaxError]
  from th a have "connects (run ?s reconnected_trace) ! sk_resolve (sockets ?s ! 0) = PromisePending"
    by blast
  then have d: "connects (run ?s reconnected_trace) ! 0 = PromisePending" unfolding b(1) .
  from th a' have d': "connects (run ?s reconnected_trace) ! 0 \<noteq> PromiseRejected SyntaxError"
    by blast
  from th a have "\<forall>c. (sk_resolve (sockets ?s ! 0), c) \<in> set (thens ?s) \<longrightarrow>
      c_settles (calls (run ?s reconnected_trace) ! c) = [] \<and>
      c \<notin> set (pending_calls (run ?s reconnected_trace))"
    by blast
  with b have e: "c_settles (calls (run ?s reconnected_trace) ! 0) = []"
    "0 \<notin> set (pending_calls (run ?s reconnected_trace))" by simp_all
  have f: "\<not> ws_open fragment_page" "open_socket fragment_page = Inl SyntaxError"
    "sockets fragment_page = []" "connects fragment_page = []"
    by (simp_all add: eval_more)
  note thf = connect_promise_settlement [OF rf, where x = SyntaxError]
  from thf have "connects (snd (wsConnect fragment_page)) ! fst (wsConnect fragment_page) =
      (if ws_open fragment_page then PromiseFulfilled
       else case open_socket fragment_page of
              Inl x \<Rightarrow> PromiseRejected x | Inr socket \<Rightarrow> PromisePending)"
    by blast
  then have f1: "connects (snd (wsConnect fragment_page)) ! fst (wsConnect fragment_page) =
      PromiseRejected SyntaxError"
    unfolding f(2) using f(1) by simp
  from thf f(2) have f2: "sockets (snd (wsConnect fragment_page)) = sockets fragment_page"
    by blast
  have f3: "fst (wsConnect fragment_page) = 0" using f(4) by simp
  have g: "\<not> ws_open page" "open_socket page = Inr ?k"
    "sockets page = []" "connects page = []" "thens page = []" "calls page = []"
    by (simp_all add: eval_more)
  note thp = connect_promise_settlement [OF rp, where k = ?k and action = "''providers''"
      and payload = JUndefined and timeoutMs = None]
  from thp g(1,2) have g1: "sockets (snd (wsConnect page)) = sockets page @ [?k]"
    "thens (step page (CallSend ''providers'' JUndefined None)) =
       thens page @ [(length (connects page), length (calls page))]"
    by blast+
  from thp have "connects (snd (wsConnect page)) ! fst (wsConnect page) =
      (if ws_open page then PromiseFulfilled
       else case open_socket page of Inl x \<Rightarrow> PromiseRejected x | Inr socket \<Rightarrow> PromisePending)"
    by blast
  then have g2: "connects (snd (wsConnect page)) ! fst (wsConnect page) = PromisePending"
    unfolding g(2) using g(1) by simp
  have g3: "fst (wsConnect page) = 0" using g(4) by simp
  have o: "0 < length (connects ?o)" "connects ?o ! 0 = PromisePending" "resolves ?o ?e 0"
    by (simp_all add: eval_more)
  note tho = connect_promise_settlement [OF ro, where p = 0 and e = ?e]
  from tho o(1) have "connects (step ?o ?e) ! 0 =
      (if connects ?o ! 0 = PromisePending \<and> resolves ?o ?e 0 then PromiseFulfilled else connects ?o ! 0)"
    by blast
  with o have o1: "connects (step ?o ?e) ! 0 = PromiseFulfilled" by simp
  from a b c d d' e f f1 f2 f3 g g1 g2 g3 o o1 show ?thesis by simp
qed

end
